theory Spec2Isabelle
  imports Complex_Main
begin

section \<open>JavaScript strings\<close>

text \<open>
  A JavaScript string is a sequence of UTF-16 code units. The editor inserts a bullet
  (U+2022) that does not fit an 8-bit character, so a string is modelled as the list of
  its code units, each a natural number. ASCII literals of the source are written
  \<open>jstr ''...''\<close>.
\<close>

type_synonym jstring = "nat list"

definition jstr :: "string \<Rightarrow> jstring" where
  "jstr s = map of_char s"

text \<open>
  \<open>WhiteSpace\<close> and \<open>LineTerminator\<close> of ECMAScript: what \<open>\s\<close> matches and what
  \<open>String.prototype.trim\<close> strips.
\<close>

definition is_space :: "nat \<Rightarrow> bool" where
  "is_space c = (c = 9 \<or> c = 10 \<or> c = 11 \<or> c = 12 \<or> c = 13 \<or> c = 32 \<or> c = 160
     \<or> c = 5760 \<or> (8192 \<le> c \<and> c \<le> 8202) \<or> c = 8232 \<or> c = 8233 \<or> c = 8239
     \<or> c = 8287 \<or> c = 12288 \<or> c = 65279)"

text \<open>\<open>\w\<close> is \<open>[A-Za-z0-9_]\<close>; without the \<open>u\<close> flag the \<open>i\<close> flag does not widen it.\<close>

definition is_word :: "nat \<Rightarrow> bool" where
  "is_word c = ((48 \<le> c \<and> c \<le> 57) \<or> (65 \<le> c \<and> c \<le> 90) \<or> c = 95 \<or> (97 \<le> c \<and> c \<le> 122))"

definition trim :: "jstring \<Rightarrow> jstring" where
  "trim s = rev (dropWhile is_space (rev (dropWhile is_space s)))"

text \<open>\<open>s.trim()\<close> used as a condition: a string is truthy when it is not empty.\<close>

definition nonblank :: "jstring \<Rightarrow> bool" where
  "nonblank s = (trim s \<noteq> [])"

text \<open>\<open>haystack.includes(needle)\<close>.\<close>

fun js_includes :: "jstring \<Rightarrow> jstring \<Rightarrow> bool" where
  "js_includes [] needle = (needle = [])"
| "js_includes (c # cs) needle = (take (length needle) (c # cs) = needle \<or> js_includes cs needle)"

text \<open>
  \<open>toLowerCase\<close>, code unit by code unit. The ASCII and Latin-1 capitals are mapped, and
  the two code units outside ASCII whose lower case contains an ASCII letter (U+0130,
  U+212A). The lower-cased strings of the source are only ever searched for ASCII
  needles, which the remaining mappings of Unicode (between code units outside ASCII)
  cannot affect; those code units are left as they are.
\<close>

definition lower_unit :: "nat \<Rightarrow> jstring" where
  "lower_unit c =
     (if 65 \<le> c \<and> c \<le> 90 then [c + 32]
      else if 192 \<le> c \<and> c \<le> 222 \<and> c \<noteq> 215 then [c + 32]
      else if c = 304 then [105, 775]
      else if c = 8490 then [107]
      else [c])"

definition toLowerCase :: "jstring \<Rightarrow> jstring" where
  "toLowerCase s = concat (map lower_unit s)"

text \<open>\<open>parts.join(sep)\<close>.\<close>

fun join :: "jstring \<Rightarrow> jstring list \<Rightarrow> jstring" where
  "join sep [] = []"
| "join sep [x] = x"
| "join sep (x # y # ys) = x @ sep @ join sep (y # ys)"

section \<open>Provider selection\<close>

text \<open>
  The credentials come from \<open>process.env\<close>: each variable is a string or undefined
  (\<open>None\<close>). The constructor stores \<open>process.env.X || null\<close>, so an empty string becomes
  null (\<open>None\<close>).
\<close>

record environment =
  REACT_APP_OPENAI_API_KEY :: "jstring option"
  REACT_APP_CLAUDE_API_KEY :: "jstring option"
  REACT_APP_HUGGINGFACE_API_KEY :: "jstring option"
  REACT_APP_GROQ_API_KEY :: "jstring option"

record AIService =
  openaiKey :: "jstring option"
  claudeKey :: "jstring option"
  huggingFaceKey :: "jstring option"
  currentProvider :: jstring

definition truthy :: "jstring option \<Rightarrow> bool" where
  "truthy v = (case v of None \<Rightarrow> False | Some s \<Rightarrow> s \<noteq> [])"

definition or_null :: "jstring option \<Rightarrow> jstring option" where
  "or_null v = (if truthy v then v else None)"

definition providers :: "jstring list" where
  "providers = [jstr ''openai'', jstr ''claude'', jstr ''groq'', jstr ''huggingface'',
     jstr ''simulation'']"

text \<open>
  The \<open>switch\<close> of \<open>isProviderAvailable\<close>, in the order of its cases. The groq case
  returns the environment variable itself; the caller tests its truthiness.
\<close>

definition isProviderAvailable :: "environment \<Rightarrow> AIService \<Rightarrow> jstring \<Rightarrow> bool" where
  "isProviderAvailable env svc provider =
     (if provider = jstr ''openai'' then truthy (openaiKey svc)
      else if provider = jstr ''claude'' then truthy (claudeKey svc)
      else if provider = jstr ''huggingface'' then truthy (huggingFaceKey svc)
      else if provider = jstr ''groq'' then truthy (REACT_APP_GROQ_API_KEY env)
      else if provider = jstr ''simulation'' then True
      else False)"

text \<open>The \<open>for ... of\<close> loop with its \<open>break\<close>.\<close>

fun detect_loop :: "environment \<Rightarrow> AIService \<Rightarrow> jstring list \<Rightarrow> AIService" where
  "detect_loop env svc [] = svc"
| "detect_loop env svc (p # ps) =
     (if isProviderAvailable env svc p then svc\<lparr>currentProvider := p\<rparr>
      else detect_loop env svc ps)"

definition detectAvailableProvider :: "environment \<Rightarrow> AIService \<Rightarrow> AIService" where
  "detectAvailableProvider env svc = detect_loop env svc providers"

definition constructor :: "environment \<Rightarrow> AIService" where
  "constructor env = detectAvailableProvider env
     \<lparr> openaiKey = or_null (REACT_APP_OPENAI_API_KEY env),
       claudeKey = or_null (REACT_APP_CLAUDE_API_KEY env),
       huggingFaceKey = or_null (REACT_APP_HUGGINGFACE_API_KEY env),
       currentProvider = jstr ''simulation'' \<rparr>"

section \<open>Document synchronisation\<close>

text \<open>
  What \<open>JSON.parse\<close> can return. Numbers are only carried, never computed with.
\<close>

datatype json =
    JNull
  | JBool bool
  | JNum real
  | JStr jstring
  | JArr "json list"
  | JObj "(jstring \<times> json) list"

datatype js_error = SyntaxError | TypeError | Error jstring

text \<open>
  Reading the property \<open>key\<close> of a parsed value: a TypeError on null, the own property of
  an object (undefined, \<open>None\<close>, when absent), undefined on every other value (neither
  \<open>type\<close> nor \<open>data\<close> is a property of a primitive's or an array's prototype).
\<close>

fun getprop :: "json \<Rightarrow> jstring \<Rightarrow> js_error + json option" where
  "getprop JNull key = Inl TypeError"
| "getprop (JObj kvs) key = Inr (map_of kvs key)"
| "getprop v key = Inr None"

text \<open>
  The \<open>onmessage\<close> handler of the socket. Its state is the \<open>document\<close> of the component
  (a JavaScript value, undefined being \<open>None\<close>); its input is the outcome of
  \<open>JSON.parse(event.data)\<close>. Every exception of the body is caught and logged, which leaves
  the state as it was. A \<open>chat\<close> message is logged only.
\<close>

definition onmessage :: "json option \<Rightarrow> js_error + json \<Rightarrow> json option" where
  "onmessage document parsed =
     (case parsed of
        Inl e \<Rightarrow> document
      | Inr message \<Rightarrow>
          (case getprop message (jstr ''type'') of
             Inl e \<Rightarrow> document
           | Inr ty \<Rightarrow>
               if ty = Some (JStr (jstr ''init'')) then
                 (case getprop message (jstr ''data'') of Inl e \<Rightarrow> document | Inr d \<Rightarrow> d)
               else if ty = Some (JStr (jstr ''update'')) then
                 (case getprop message (jstr ''data'') of Inl e \<Rightarrow> document | Inr d \<Rightarrow> d)
               else document))"

text \<open>The wire message \<open>{type: t, data: d}\<close> after parsing.\<close>

definition sync_message :: "string \<Rightarrow> json \<Rightarrow> js_error + json" where
  "sync_message t d = Inr (JObj [(jstr ''type'', JStr (jstr t)), (jstr ''data'', d)])"

text \<open>The handler run on a sequence of inbound messages, oldest first.\<close>

definition receive_all :: "json option \<Rightarrow> (js_error + json) list \<Rightarrow> json option" where
  "receive_all document msgs = foldl onmessage document msgs"

section \<open>Numbers\<close>

text \<open>\<open>String(n)\<close> of a non-negative integer: its decimal digits.\<close>

fun show_nat :: "nat \<Rightarrow> jstring" where
  "show_nat n = (if n < 10 then [48 + n] else show_nat (n div 10) @ [48 + n mod 10])"

declare show_nat.simps [simp del]

text \<open>
  \<open>Math.ceil(n * 0.7)\<close> in IEEE 754 double arithmetic. The literal \<open>0.7\<close> denotes the double
  \<open>6305039478318694 / 2^53\<close>. The exact product of an integer \<open>n\<close> with it has the numerator
  \<open>n * 6305039478318694\<close> over \<open>2^53\<close>; the multiplication rounds it to 53 significant bits,
  ties to even. All numerators below are over \<open>2^53\<close>.
\<close>

definition double_0_7 :: nat where
  "double_0_7 = 6305039478318694"

fun bit_length :: "nat \<Rightarrow> nat" where
  "bit_length n = (if n = 0 then 0 else Suc (bit_length (n div 2)))"

declare bit_length.simps [simp del]

definition round_to_double :: "nat \<Rightarrow> nat" where
  "round_to_double v =
     (let e = bit_length v - 53 in
      if e = 0 then v
      else let q = v div 2 ^ e; r = v mod 2 ^ e
           in (if 2 ^ (e - 1) < r \<or> (r = 2 ^ (e - 1) \<and> odd q) then q + 1 else q) * 2 ^ e)"

definition ceil_times_0_7 :: "nat \<Rightarrow> nat" where
  "ceil_times_0_7 n = (round_to_double (n * double_0_7) + (2 ^ 53 - 1)) div 2 ^ 53"

section \<open>Splitting\<close>

text \<open>
  \<open>s.split(/[...]+/)\<close> for a regular expression that matches the non-empty runs of one
  class of code units: the segments between the maximal runs, the empty segments at the
  ends included. \<open>split\<close> stops at \<open>2^32 - 1\<close> segments, the limit it takes when none is given.
\<close>

function split_runs :: "(nat \<Rightarrow> bool) \<Rightarrow> jstring \<Rightarrow> jstring \<Rightarrow> jstring list" where
  "split_runs P acc [] = [acc]"
| "split_runs P acc (c # cs) =
     (if P c then acc # split_runs P [] (dropWhile P cs) else split_runs P (acc @ [c]) cs)"
  by pat_completeness auto
termination
  by (relation "measure (\<lambda>(P, acc, s). length s)")
     (auto simp: less_Suc_eq_le length_dropWhile_le)

definition split_limit :: nat where
  "split_limit = 4294967295"

definition split_regex :: "(nat \<Rightarrow> bool) \<Rightarrow> jstring \<Rightarrow> jstring list" where
  "split_regex P s = take split_limit (split_runs P [] s)"

text \<open>\<open>s.split(sep)\<close> for a separator of one code unit.\<close>

fun split_at :: "nat \<Rightarrow> jstring \<Rightarrow> jstring \<Rightarrow> jstring list" where
  "split_at sep acc [] = [acc]"
| "split_at sep acc (c # cs) =
     (if c = sep then acc # split_at sep [] cs else split_at sep (acc @ [c]) cs)"

definition split_string :: "nat \<Rightarrow> jstring \<Rightarrow> jstring list" where
  "split_string sep s = take split_limit (split_at sep [] s)"

text \<open>The class \<open>[.!?]\<close>.\<close>

definition is_terminator :: "nat \<Rightarrow> bool" where
  "is_terminator c = (c = 46 \<or> c = 33 \<or> c = 63)"

text \<open>\<open>text.split(/[.!?]+/).filter(s => s.trim())\<close>.\<close>

definition sentences_of :: "jstring \<Rightarrow> jstring list" where
  "sentences_of text = filter nonblank (split_regex is_terminator text)"

text \<open>\<open>xs.filter((x, i) => p(x, i))\<close>: the callback also sees the index.\<close>

definition filter_indexed :: "('a \<Rightarrow> nat \<Rightarrow> bool) \<Rightarrow> 'a list \<Rightarrow> 'a list" where
  "filter_indexed p xs = map fst (filter (\<lambda>(x, i). p x i) (zip xs [0 ..< length xs]))"

section \<open>Regular expressions\<close>

text \<open>
  The regular expressions of the source, as syntax trees, and the backtracking matcher
  of ECMAScript for them. \<open>ms f r st\<close> lists the states in which \<open>r\<close> can end when started
  in \<open>st\<close>, in the order in which backtracking tries them: the head of the list is the
  match. A state holds the code unit before the current position (none at the start of
  the string), the rest of the input and the captures made so far.
\<close>

definition is_line_terminator :: "nat \<Rightarrow> bool" where
  "is_line_terminator c = (c = 10 \<or> c = 13 \<or> c = 8232 \<or> c = 8233)"

datatype cls = CWord | CSpace | CDot | CRange nat nat | CSet jstring

fun in_cls :: "cls \<Rightarrow> nat \<Rightarrow> bool" where
  "in_cls CWord c = is_word c"
| "in_cls CSpace c = is_space c"
| "in_cls CDot c = (\<not> is_line_terminator c)"
| "in_cls (CRange a b) c = (a \<le> c \<and> c \<le> b)"
| "in_cls (CSet cs) c = (c \<in> set cs)"

datatype regex =
    Empty
  | Chr nat
  | Class cls
  | Seq regex regex
  | Alt regex regex
  | Opt regex
  | Star regex
  | Group nat regex
  | WordB
  | Bol
  | Eol

record flags =
  ignoreCase :: bool
  multiline :: bool

text \<open>
  Under the \<open>i\<close> flag two code units match when their canonical forms (upper case) are
  equal. Every literal of the source's patterns is ASCII, and a code unit outside ASCII
  never has an ASCII canonical form, so only the ASCII letters need their upper case.
\<close>

definition canonicalize :: "nat \<Rightarrow> nat" where
  "canonicalize c = (if 97 \<le> c \<and> c \<le> 122 then c - 32 else c)"

definition chr_eq :: "flags \<Rightarrow> nat \<Rightarrow> nat \<Rightarrow> bool" where
  "chr_eq f c x = (if ignoreCase f then canonicalize c = canonicalize x else c = x)"

type_synonym mstate = "nat option \<times> jstring \<times> (nat \<times> jstring) list"

definition word_opt :: "nat option \<Rightarrow> bool" where
  "word_opt v = (case v of None \<Rightarrow> False | Some c \<Rightarrow> is_word c)"

definition next_unit :: "jstring \<Rightarrow> nat option" where
  "next_unit s = (case s of [] \<Rightarrow> None | c # cs \<Rightarrow> Some c)"

definition remaining :: "mstate \<Rightarrow> nat" where
  "remaining st = length (fst (snd st))"

text \<open>A group that started on the input \<open>s\<close> captures what was consumed since.\<close>

definition with_capture :: "nat \<Rightarrow> jstring \<Rightarrow> mstate \<Rightarrow> mstate" where
  "with_capture n s st =
     (case st of (prev, rest, caps) \<Rightarrow> (prev, rest, (n, take (length s - length rest) s) # caps))"

text \<open>
  Quantifiers are greedy. An iteration of \<open>?\<close> or \<open>*\<close> that consumes nothing is rejected, as
  ECMAScript does.
\<close>

function ms :: "flags \<Rightarrow> regex \<Rightarrow> mstate \<Rightarrow> mstate list" where
  "ms f Empty st = [st]"
| "ms f (Chr c) (prev, s, caps) =
     (case s of [] \<Rightarrow> [] | x # xs \<Rightarrow> if chr_eq f c x then [(Some x, xs, caps)] else [])"
| "ms f (Class k) (prev, s, caps) =
     (case s of [] \<Rightarrow> [] | x # xs \<Rightarrow> if in_cls k x then [(Some x, xs, caps)] else [])"
| "ms f (Seq a b) st = concat (map (ms f b) (ms f a st))"
| "ms f (Alt a b) st = ms f a st @ ms f b st"
| "ms f (Opt a) st = filter (\<lambda>st'. remaining st' < remaining st) (ms f a st) @ [st]"
| "ms f (Star a) st =
     concat (map (ms f (Star a)) (filter (\<lambda>st'. remaining st' < remaining st) (ms f a st)))
     @ [st]"
| "ms f (Group n a) (prev, s, caps) = map (with_capture n s) (ms f a (prev, s, caps))"
| "ms f WordB (prev, s, caps) =
     (if word_opt prev \<noteq> word_opt (next_unit s) then [(prev, s, caps)] else [])"
| "ms f Bol (prev, s, caps) =
     (case prev of
        None \<Rightarrow> [(prev, s, caps)]
      | Some c \<Rightarrow> if multiline f \<and> is_line_terminator c then [(prev, s, caps)] else [])"
| "ms f Eol (prev, s, caps) =
     (case s of
        [] \<Rightarrow> [(prev, s, caps)]
      | c # cs \<Rightarrow> if multiline f \<and> is_line_terminator c then [(prev, s, caps)] else [])"
  by pat_completeness auto
termination
  by (relation "inv_image (less_than <*lex*> less_than) (\<lambda>(f, r, st). (size r, remaining st))")
     auto

text \<open>\<open>a+\<close>, a sequence of atoms, a literal string.\<close>

definition Plus :: "regex \<Rightarrow> regex" where
  "Plus a = Seq a (Star a)"

fun seqs :: "regex list \<Rightarrow> regex" where
  "seqs [] = Empty"
| "seqs [r] = r"
| "seqs (r # rs) = Seq r (seqs rs)"

definition lit :: "string \<Rightarrow> regex list" where
  "lit s = map Chr (jstr s)"

text \<open>A capture by its number; a group that took no part reads as the empty string.\<close>

definition capture :: "(nat \<times> jstring) list \<Rightarrow> nat \<Rightarrow> jstring" where
  "capture caps n = (case map_of caps n of None \<Rightarrow> [] | Some s \<Rightarrow> s)"

text \<open>
  \<open>s.replace(re, rep)\<close> for a regular expression with the \<open>g\<close> flag. The scan tries a match
  at the current position; on success the replacement (computed from the matched text
  and the captures) is emitted and the scan goes on behind the match; otherwise the code
  unit is copied. After an empty match the scan advances by one code unit. \<open>prev\<close> is the
  code unit before the current position.
\<close>

type_synonym replacer = "jstring \<Rightarrow> (nat \<Rightarrow> jstring) \<Rightarrow> jstring"

function replace_scan :: "flags \<Rightarrow> regex \<Rightarrow> replacer \<Rightarrow> nat option \<Rightarrow> jstring \<Rightarrow> jstring" where
  "replace_scan f re rep prev s =
     (case ms f re (prev, s, []) of
        (prev', rest, caps) # _ \<Rightarrow>
          (let r = rep (take (length s - length rest) s) (capture caps) in
           if length rest < length s then r @ replace_scan f re rep prev' rest
           else (case s of [] \<Rightarrow> r | c # cs \<Rightarrow> r @ c # replace_scan f re rep (Some c) cs))
      | [] \<Rightarrow> (case s of [] \<Rightarrow> [] | c # cs \<Rightarrow> c # replace_scan f re rep (Some c) cs))"
  by pat_completeness auto
termination
  by (relation "measure (\<lambda>(f, re, rep, prev, s). length s)") auto

declare replace_scan.simps [simp del]

definition replace :: "flags \<Rightarrow> regex \<Rightarrow> replacer \<Rightarrow> jstring \<Rightarrow> jstring" where
  "replace f re rep s = replace_scan f re rep None s"

text \<open>The flag sets \<open>/g\<close>, \<open>/gi\<close> and \<open>/gm\<close>.\<close>

definition flags_g :: flags where
  "flags_g = \<lparr>ignoreCase = False, multiline = False\<rparr>"

definition flags_gi :: flags where
  "flags_gi = \<lparr>ignoreCase = True, multiline = False\<rparr>"

definition flags_gm :: flags where
  "flags_gm = \<lparr>ignoreCase = False, multiline = True\<rparr>"

text \<open>A replacement string without \<open>$\<close> patterns.\<close>

definition fixed :: "string \<Rightarrow> replacer" where
  "fixed r = (\<lambda>matched caps. jstr r)"

text \<open>\<open>/\bword\b/\<close>.\<close>

definition word_re :: "string \<Rightarrow> regex" where
  "word_re p = seqs ([WordB] @ lit p @ [WordB])"

section \<open>The text transformations\<close>

text \<open>
  \<open>toUpperCase\<close>, code unit by code unit: the ASCII and Latin-1 letters. The source
  applies it to one code unit matched by \<open>[a-z]\<close>.
\<close>

definition upper_unit :: "nat \<Rightarrow> jstring" where
  "upper_unit c =
     (if 97 \<le> c \<and> c \<le> 122 then [c - 32]
      else if 224 \<le> c \<and> c \<le> 254 \<and> c \<noteq> 247 then [c - 32]
      else if c = 223 then [83, 83]
      else if c = 255 then [376]
      else if c = 181 then [924]
      else [c])"

definition toUpperCase :: "jstring \<Rightarrow> jstring" where
  "toUpperCase s = concat (map upper_unit s)"

text \<open>
  \<open>table[key] || fallback\<close> on an object literal whose values are non-empty strings. A key
  that is no own property is looked up in \<open>Object.prototype\<close>. The keys of the source are
  lower-cased words (\<open>\w+\<close>), and two of these name a property there: \<open>constructor\<close> (the
  function \<open>Object\<close>) and \<open>__proto__\<close> (the prototype object). Both are truthy, and the
  replacement callback's result is converted to a string.
\<close>

definition lookup_or :: "(string \<times> string) list \<Rightarrow> jstring \<Rightarrow> jstring \<Rightarrow> jstring" where
  "lookup_or table key fallback =
     (case map_of (map (\<lambda>(k, v). (jstr k, jstr v)) table) key of
        Some v \<Rightarrow> v
      | None \<Rightarrow>
          if key = jstr ''constructor'' then jstr ''function Object() { [native code] }''
          else if key = jstr ''__proto__'' then jstr ''[object Object]''
          else fallback)"

text \<open>The bullet U+2022 followed by a space.\<close>

definition bullet :: jstring where
  "bullet = [8226, 32]"

definition improveText :: "jstring \<Rightarrow> jstring" where
  "improveText text =
     (if text = [] then text
      else
        let improved = trim
              (replace flags_g (Plus (Chr 44)) (fixed '','')
              (replace flags_g (Plus (Chr 33)) (fixed ''!'')
              (replace flags_g (Plus (Chr 63)) (fixed ''?'')
              (replace flags_g (Plus (Chr 46)) (fixed ''.'')
              (replace flags_g (Plus (Class CSpace)) (fixed '' '')
              (replace flags_g (word_re ''i'') (fixed ''I'') text))))));
            improved = replace flags_g
              (Seq (Group 1 (Alt Bol (Seq (Class (CSet (jstr ''.!?''))) (Plus (Class CSpace)))))
                   (Group 2 (Class (CRange 97 122))))
              (\<lambda>matched caps. caps 1 @ toUpperCase (caps 2)) improved
        in replace flags_g (seqs ([WordB] @ lit ''your'' @ [Plus (Class CSpace)] @ lit ''you'' @ [WordB]))
             (fixed ''you'')
           (replace flags_g (seqs ([WordB] @ lit ''their'' @ [Plus (Class CSpace)] @ lit ''they'' @ [WordB]))
             (fixed ''they'')
           (replace flags_g (seqs ([WordB] @ lit ''was'' @ [Plus (Class CSpace)] @ lit ''were'' @ [WordB]))
             (fixed ''were'')
           (replace flags_g (word_re ''nad'') (fixed ''and'')
           (replace flags_g (word_re ''teh'') (fixed ''the'') improved)))))"

definition formatDocument :: "jstring \<Rightarrow> jstring" where
  "formatDocument text =
     (if text = [] then text
      else
        let formatted = replace flags_g (Seq (Chr 46) (Group 1 (Class (CRange 65 90))))
              (\<lambda>matched caps. jstr ''. '' @ caps 1) text;
            formatted = replace flags_g (seqs [Chr 10, Chr 10, Plus (Chr 10)])
              (fixed ''\<newline>\<newline>'') formatted;
            formatted = replace flags_gm
              (seqs [Bol, Group 1 (Alt (Chr 45) (Chr 42)), Star (Class CSpace),
                     Group 2 (Plus (Class CDot)), Eol])
              (\<lambda>matched caps. bullet @ caps 2) formatted;
            lines = split_string 10 formatted
        in case lines of
             [] \<Rightarrow> formatted
           | l # ls \<Rightarrow>
               if length l < 60 \<and> \<not> js_includes l (jstr ''.'')
               then join (jstr ''\<newline>'') ((jstr ''# '' @ l) # ls)
               else formatted)"

definition shortenText :: "jstring \<Rightarrow> jstring" where
  "shortenText text =
     (let sentences = sentences_of text in
      if length sentences \<le> 1 then text
      else join (jstr ''. '')
             (filter_indexed (\<lambda>s i. i < ceil_times_0_7 (length sentences)) (map trim sentences))
           @ jstr ''.'')"

definition lengthenText :: "jstring \<Rightarrow> jstring" where
  "lengthenText text =
     (let enhanced =
        replace flags_gi (word_re ''this'') (fixed ''this particular aspect'')
        (replace flags_g (seqs (lit ''. '')) (fixed ''. Furthermore, '')
        (replace flags_gi
           (seqs [WordB,
              Group 1 (Alt (seqs (lit ''good'')) (Alt (seqs (lit ''bad''))
                (Alt (seqs (lit ''nice'')) (seqs (lit ''great''))))),
              WordB])
           (\<lambda>matched caps. lookup_or
              [(''good'', ''excellent and well-executed''),
               (''bad'', ''problematic and concerning''),
               (''nice'', ''pleasant and appealing''),
               (''great'', ''outstanding and remarkable'')]
              (toLowerCase matched) matched)
           text))
      in enhanced @ jstr '' This demonstrates the complexity and importance of the matter at hand.'')"

definition improveWriting :: "jstring \<Rightarrow> jstring" where
  "improveWriting text =
     replace flags_gi (word_re ''a lot of'') (fixed ''numerous'')
     (replace flags_gi (word_re ''got'') (fixed ''obtained'')
     (replace flags_gi (word_re ''stuff'') (fixed ''material'')
     (replace flags_gi (seqs ([WordB] @ lit ''thing'' @ [Group 1 (Opt (Chr 115)), WordB]))
        (\<lambda>matched caps. jstr ''element'' @ caps 1)
     (replace flags_gi (seqs ([WordB] @ lit ''very '' @ [Group 1 (Plus (Class CWord))]))
        (\<lambda>matched caps. lookup_or
           [(''good'', ''exceptional''),
            (''bad'', ''terrible''),
            (''big'', ''enormous''),
            (''small'', ''tiny''),
            (''important'', ''crucial''),
            (''difficult'', ''challenging'')]
           (toLowerCase (caps 1)) matched)
        text))))"

definition makeFormal :: "jstring \<Rightarrow> jstring" where
  "makeFormal text =
     replace flags_gi (word_re ''guys'') (fixed ''individuals'')
     (replace flags_gi (word_re ''kind of'') (fixed ''somewhat'')
     (replace flags_gi (word_re ''okay'') (fixed ''acceptable'')
     (replace flags_gi (word_re ''maybe'') (fixed ''perhaps'')
     (replace flags_gi (word_re ''I think'') (fixed ''It is my opinion that'')
     (replace flags_gi (word_re ''isn't'') (fixed ''is not'')
     (replace flags_gi (word_re ''doesn't'') (fixed ''does not'')
     (replace flags_gi (word_re ''won't'') (fixed ''will not'')
     (replace flags_gi (word_re ''can't'') (fixed ''cannot'') text))))))))"

definition makeCasual :: "jstring \<Rightarrow> jstring" where
  "makeCasual text =
     replace flags_gi (word_re ''individuals'') (fixed ''people'')
     (replace flags_gi (word_re ''somewhat'') (fixed ''kind of'')
     (replace flags_gi (word_re ''acceptable'') (fixed ''okay'')
     (replace flags_gi (word_re ''perhaps'') (fixed ''maybe'')
     (replace flags_gi (word_re ''It is my opinion that'') (fixed ''I think'')
     (replace flags_gi (word_re ''is not'') (fixed ''isn't'')
     (replace flags_gi (word_re ''does not'') (fixed ''doesn't'')
     (replace flags_gi (word_re ''will not'') (fixed ''won't'')
     (replace flags_gi (word_re ''cannot'') (fixed ''can't'') text))))))))"

text \<open>The body of the \<open>forEach\<close> of \<open>convertToTable\<close>: one row appended to the table.\<close>

definition table_row :: "nat \<Rightarrow> jstring \<Rightarrow> jstring" where
  "table_row i sentence = jstr ''| '' @ show_nat (i + 1) @ jstr '' | '' @ trim sentence @ jstr '' |\<newline>''"

fun forEach_rows :: "jstring \<Rightarrow> nat \<Rightarrow> jstring list \<Rightarrow> jstring" where
  "forEach_rows table i [] = table"
| "forEach_rows table i (sentence # rest) = forEach_rows (table @ table_row i sentence) (i + 1) rest"

definition convertToTable :: "jstring \<Rightarrow> jstring" where
  "convertToTable text =
     (let sentences = sentences_of text in
      if length sentences < 2 then text
      else forEach_rows (jstr ''| Item | Description |\<newline>|------|-------------|\<newline>'') 0 sentences)"

definition convertToList :: "jstring \<Rightarrow> jstring" where
  "convertToList text =
     (let sentences = sentences_of text in
      if length sentences < 2 then text
      else join (jstr ''\<newline>'') (map (\<lambda>sentence. bullet @ trim sentence) sentences))"

text \<open>
  \<open>split\<close> with a regular expression that cannot match the empty string returns at least
  one segment, so the element \<open>[0]\<close> of \<open>summarizeText\<close> exists; the first case below is not
  reached.
\<close>

definition summarizeText :: "jstring \<Rightarrow> jstring" where
  "summarizeText text =
     (let words = split_regex is_space text in
      if length words \<le> 20 then text
      else
        let firstSentence = (case split_regex is_terminator text of [] \<Rightarrow> [] | s # _ \<Rightarrow> trim s);
            keyWords = join (jstr '', '') (take 5 (filter (\<lambda>word. length word > 5) words))
        in jstr ''Summary: '' @ firstSentence @ jstr ''. Key terms: '' @ keyWords @ jstr ''.'')"

definition customEdit :: "jstring \<Rightarrow> jstring \<Rightarrow> jstring" where
  "customEdit text prompt =
     (let lowerPrompt = toLowerCase prompt in
      if js_includes lowerPrompt (jstr ''professional'') \<or> js_includes lowerPrompt (jstr ''formal'')
      then makeFormal text
      else if js_includes lowerPrompt (jstr ''casual'') \<or> js_includes lowerPrompt (jstr ''friendly'')
      then makeCasual text
      else if js_includes lowerPrompt (jstr ''shorter'') \<or> js_includes lowerPrompt (jstr ''concise'')
      then shortenText text
      else if js_includes lowerPrompt (jstr ''longer'') \<or> js_includes lowerPrompt (jstr ''detail'')
      then lengthenText text
      else improveWriting text)"

section \<open>The service\<close>

text \<open>A settled promise: the value it resolved with, or the error it rejected with.\<close>

datatype 'a promise = Resolved 'a | Rejected js_error

definition then_promise :: "('a \<Rightarrow> 'b) \<Rightarrow> 'a promise \<Rightarrow> 'b promise" where
  "then_promise h p = (case p of Resolved v \<Rightarrow> Resolved (h v) | Rejected e \<Rightarrow> Rejected e)"

record TransformResult =
  originalText :: jstring
  editedText :: jstring
  message :: jstring
  editType :: jstring

text \<open>
  \<open>getTextEdit(editType, selectedText, customPrompt = '')\<close>. An omitted or undefined
  prompt (\<open>None\<close>) takes the default. The promise resolves from a timer after a delay
  of one to three seconds; the delay is not modelled.
\<close>

definition getTextEdit :: "jstring \<Rightarrow> jstring \<Rightarrow> jstring option \<Rightarrow> TransformResult promise" where
  "getTextEdit ty selectedText customPromptArg =
     (let customPrompt = (case customPromptArg of None \<Rightarrow> [] | Some p \<Rightarrow> p);
          (edited, msg) =
            (if ty = jstr ''shorten'' then
               (shortenText selectedText, jstr ''Text shortened while preserving key meaning'')
             else if ty = jstr ''lengthen'' then
               (lengthenText selectedText, jstr ''Text expanded with additional detail'')
             else if ty = jstr ''improve'' then
               (improveWriting selectedText, jstr ''Writing quality improved'')
             else if ty = jstr ''formal'' then
               (makeFormal selectedText, jstr ''Text made more formal'')
             else if ty = jstr ''casual'' then
               (makeCasual selectedText, jstr ''Text made more casual'')
             else if ty = jstr ''table'' then
               (convertToTable selectedText, jstr ''Converted to table format'')
             else if ty = jstr ''list'' then
               (convertToList selectedText, jstr ''Converted to list format'')
             else if ty = jstr ''summarize'' then
               (summarizeText selectedText, jstr ''Text summarized'')
             else if ty = jstr ''custom'' then
               (customEdit selectedText customPrompt, jstr ''Custom edit applied: '' @ customPrompt)
             else
               (improveText selectedText, jstr ''Text improved''))
      in Resolved
           \<lparr> originalText = selectedText, editedText = edited, message = msg, editType = ty \<rparr>)"

record ChatTurn =
  action :: jstring
  reply :: jstring
  newContent :: "jstring option"

text \<open>The ten canned answers of the chat simulation.\<close>

definition responses :: "jstring list" where
  "responses = map jstr
    [''I'm here to help! You can ask me to fix grammar, improve writing, add content, or format your document.'',
     ''That's an interesting question! I can also help you edit your document directly. Try asking me to 'fix grammar' or 'add an introduction'.'',
     ''I'd be happy to assist you! Some things I can do: improve text, add summaries, fix formatting, or just chat about your document.'',
     ''Great question! I can provide suggestions or directly modify your document. Just let me know what you need - I can add content, fix grammar, or organize your text.'',
     ''I'm your AI writing assistant! I can help improve your document's grammar, add new content, create summaries, or answer any questions you have.'',
     ''Feel free to ask me anything! I can also edit your document directly - try asking me to 'improve the writing' or 'add a conclusion'.'',
     ''I'm designed to help with both conversation and document editing. What would you like me to help you with today?'',
     ''That's a good point! I can also assist with your document - whether you need grammar fixes, additional content, or better formatting.'',
     ''Interesting! While we chat, remember I can also directly modify your document. Try commands like 'add an introduction' or 'fix the grammar'.'',
     ''I understand! Let me know if you'd like me to make any changes to your document. I can improve writing, add content, or organize the text better.'']"

text \<open>
  \<open>simulateAIResponse(userMessage, currentDocument)\<close>; its promise resolves from a timer
  like the one of \<open>getTextEdit\<close>. \<open>rnd\<close> is \<open>Math.floor(Math.random() * responses.length)\<close>, an index from 0 to 9;
  the field \<open>message\<close> of the result is called \<open>reply\<close> here, and an absent \<open>newContent\<close> is
  \<open>None\<close>.
\<close>

definition simulateAIResponse :: "nat \<Rightarrow> jstring \<Rightarrow> jstring \<Rightarrow> ChatTurn promise" where
  "simulateAIResponse rnd userMessage currentDocument = Resolved
     (let lowerMessage = toLowerCase userMessage in
      if js_includes lowerMessage (jstr ''fix grammar'') \<or> js_includes lowerMessage (jstr ''correct'')
         \<or> js_includes lowerMessage (jstr ''improve'')
      then \<lparr> action = jstr ''modify'',
             reply = jstr ''I've improved the grammar and style of your document!'',
             newContent = Some (improveText currentDocument) \<rparr>
      else if js_includes lowerMessage (jstr ''add'')
           \<and> (js_includes lowerMessage (jstr ''content'') \<or> js_includes lowerMessage (jstr ''paragraph'')
              \<or> js_includes lowerMessage (jstr ''text''))
      then
        (let addedContent =
           (if js_includes lowerMessage (jstr ''introduction'') \<or> js_includes lowerMessage (jstr ''intro'')
            then jstr ''\<newline>\<newline>## Introduction\<newline>\<newline>This document serves as a comprehensive guide that aims to provide valuable insights and information on the topic at hand. Through careful analysis and research, we present the following findings and recommendations.''
            else if js_includes lowerMessage (jstr ''conclusion'')
            then jstr ''\<newline>\<newline>## Conclusion\<newline>\<newline>In conclusion, the points discussed above highlight the importance of this topic and its implications for future development. We recommend continued research and implementation of the strategies outlined in this document.''
            else jstr ''\<newline>\<newline>[AI Generated Content]\<newline>This additional content has been generated based on your request. It provides supplementary information that complements the existing text and enhances the overall quality of the document.'')
         in \<lparr> action = jstr ''modify'',
              reply = jstr ''I've added relevant content to your document!'',
              newContent = Some (currentDocument @ addedContent) \<rparr>)
      else if js_includes lowerMessage (jstr ''summarize'') \<or> js_includes lowerMessage (jstr ''summary'')
      then
        (if nonblank currentDocument
         then
           (let summary = jstr ''\<newline>\<newline>## Summary\<newline>This document contains ''
                  @ show_nat (length (split_string 32 currentDocument))
                  @ jstr '' words covering the main topics discussed above. ''
                  @ jstr ''The key points have been organized to provide a clear understanding of the subject matter.''
            in \<lparr> action = jstr ''modify'',
                 reply = jstr ''I've added a summary to your document!'',
                 newContent = Some (currentDocument @ summary) \<rparr>)
         else \<lparr> action = jstr ''chat'',
                reply = jstr ''There's no content to summarize yet. Please add some text first, and I'll be happy to create a summary!'',
                newContent = None \<rparr>)
      else if js_includes lowerMessage (jstr ''format'') \<or> js_includes lowerMessage (jstr ''organize'')
      then \<lparr> action = jstr ''modify'',
             reply = jstr ''I've improved the formatting and organization of your document!'',
             newContent = Some (formatDocument currentDocument) \<rparr>
      else \<lparr> action = jstr ''chat'',
             reply = responses ! (rnd mod length responses),
             newContent = None \<rparr>)"

text \<open>
  What a call of the service can resolve with: a chat turn of the simulation, the result
  of an edit, or whatever value a network provider's adapter returned (the parsed reply
  of the provider, or the object the adapter wraps around its text).
\<close>

datatype response = Turn ChatTurn | Edit TransformResult | Provided json

text \<open>
  \<open>callAI(message, documentContent, type)\<close>. The adapters of the network providers
  (\<open>callOpenAI\<close>, \<open>callClaude\<close>, \<open>callGroq\<close>, \<open>callHuggingFace\<close>) talk to the network; the
  outcome of the awaited adapter call is the parameter \<open>outcome\<close>: the rejection (a failed
  request, a reply that cannot be decoded, a reply without content) or the value.
\<close>

definition callAI ::
  "AIService \<Rightarrow> json promise \<Rightarrow> nat \<Rightarrow> jstring \<Rightarrow> jstring \<Rightarrow> jstring \<Rightarrow> response promise" where
  "callAI svc outcome rnd msg documentContent ty =
     (let provider = currentProvider svc in
      if provider = jstr ''simulation'' then
        (if ty = jstr ''chat'' then then_promise Turn (simulateAIResponse rnd msg documentContent)
         else then_promise Edit (getTextEdit msg documentContent None))
      else if provider = jstr ''openai'' \<or> provider = jstr ''claude'' \<or> provider = jstr ''groq''
              \<or> provider = jstr ''huggingface''
      then then_promise Provided outcome
      else Rejected (Error (jstr ''Unknown provider: '' @ provider)))"

text \<open>\<open>getChatResponse(message, documentContent = '')\<close>: the \<open>try\<close> around \<open>callAI\<close>.\<close>

definition getChatResponse ::
  "AIService \<Rightarrow> json promise \<Rightarrow> nat \<Rightarrow> jstring \<Rightarrow> jstring option \<Rightarrow> response promise" where
  "getChatResponse svc outcome rnd msg documentContentArg =
     (let documentContent = (case documentContentArg of None \<Rightarrow> [] | Some d \<Rightarrow> d) in
      case callAI svc outcome rnd msg documentContent (jstr ''chat'') of
        Resolved v \<Rightarrow> Resolved v
      | Rejected error \<Rightarrow> then_promise Turn (simulateAIResponse rnd msg documentContent))"

text \<open>
  A chat turn as the data model has it: the action is \<open>chat\<close> or \<open>modify\<close>, and \<open>newContent\<close>
  is present exactly for \<open>modify\<close>.
\<close>

definition valid_ChatTurn :: "ChatTurn \<Rightarrow> bool" where
  "valid_ChatTurn t =
     ((action t = jstr ''chat'' \<and> newContent t = None)
      \<or> (action t = jstr ''modify'' \<and> (\<exists>c. newContent t = Some c)))"

section \<open>The callers of the edit operation\<close>

text \<open>
  \<open>handleEditWithAI(editType, text)\<close> of the application, as the suggestion it leaves in
  \<open>aiSuggestion\<close>: the suggestion is cleared, and the service is called unless the edit
  type is \<open>custom\<close>.
\<close>

definition handleEditWithAI :: "jstring \<Rightarrow> jstring \<Rightarrow> jstring" where
  "handleEditWithAI ty text =
     (if ty \<noteq> jstr ''custom'' then
        (case getTextEdit ty text None of
           Resolved result \<Rightarrow> editedText result
         | Rejected error \<Rightarrow> jstr ''Error: Could not process text edit.'')
      else [])"

text \<open>
  \<open>handleCustomEdit\<close> of the preview modal, which passes a non-blank prompt on to
  \<open>handleCustomEdit\<close> of the application: the suggestion it leaves, given the suggestion
  before and the original text of the modal.
\<close>

definition handleCustomEdit :: "jstring \<Rightarrow> jstring \<Rightarrow> jstring \<Rightarrow> jstring" where
  "handleCustomEdit aiSuggestion original customPrompt =
     (if nonblank customPrompt then
        (case getTextEdit (jstr ''custom'') original (Some customPrompt) of
           Resolved result \<Rightarrow> editedText result
         | Rejected error \<Rightarrow> jstr ''Error: Could not process custom edit.'')
      else aiSuggestion)"

section \<open>Chains of word substitutions\<close>

text \<open>
  \<open>makeFormal\<close> and \<open>makeCasual\<close> are chains of replacements of one shape,
  \<open>.replace(/\bliteral\b/gi, 'replacement')\<close>. The notions of this section describe such
  a chain and serve the proof that applying it twice changes nothing more; they are not
  part of the program.
\<close>

text \<open>
  A literal followed by \<open>\b\<close>, matched at the head of the input: the previous unit and the
  rest behind the match, if it matches.
\<close>

fun lit_end :: "flags \<Rightarrow> jstring \<Rightarrow> nat option \<Rightarrow> jstring \<Rightarrow> (nat option \<times> jstring) option" where
  "lit_end f [] prev s = (if word_opt prev \<noteq> word_opt (next_unit s) then Some (prev, s) else None)"
| "lit_end f (c # p) prev [] = None"
| "lit_end f (c # p) prev (x # xs) = (if chr_eq f c x then lit_end f p (Some x) xs else None)"

text \<open>\<open>/\bliteral\b/\<close> at the head of the input, \<open>prev\<close> being the unit before it.\<close>

definition wm :: "flags \<Rightarrow> jstring \<Rightarrow> nat option \<Rightarrow> jstring \<Rightarrow> (nat option \<times> jstring) option" where
  "wm f p prev s = (if word_opt prev \<noteq> word_opt (next_unit s) then lit_end f p prev s else None)"

text \<open>The regular expression \<open>/\bliteral\b/\<close> for a literal given by its code units.\<close>

definition wre :: "jstring \<Rightarrow> regex" where
  "wre p = seqs (WordB # map Chr p @ [WordB])"

text \<open>The pattern \<open>q\<close> matches somewhere in the input.\<close>

fun hasm :: "flags \<Rightarrow> jstring \<Rightarrow> nat option \<Rightarrow> jstring \<Rightarrow> bool" where
  "hasm f q prev [] = (wm f q prev [] \<noteq> None)"
| "hasm f q prev (c # cs) = (wm f q prev (c # cs) \<noteq> None \<or> hasm f q (Some c) cs)"

text \<open>
  The literal \<open>q\<close> followed by \<open>\b\<close> can match at the head of \<open>r\<close> continued by any text
  that is empty or starts with a unit outside \<open>\w\<close>.
\<close>

fun ov :: "flags \<Rightarrow> jstring \<Rightarrow> nat option \<Rightarrow> jstring \<Rightarrow> bool" where
  "ov f [] pv [] = word_opt pv"
| "ov f [] pv (x # xs) = (word_opt pv \<noteq> is_word x)"
| "ov f (c # q) pv [] = (\<not> is_word c)"
| "ov f (c # q) pv (x # xs) = (chr_eq f c x \<and> ov f q (Some x) xs)"

text \<open>A match of \<open>q\<close> can start inside \<open>r\<close> (continued as above).\<close>

fun starts_in :: "flags \<Rightarrow> jstring \<Rightarrow> nat option \<Rightarrow> jstring \<Rightarrow> bool" where
  "starts_in f q pv [] = False"
| "starts_in f q pv (x # xs) =
     ((word_opt pv \<noteq> is_word x \<and> ov f q pv (x # xs)) \<or> starts_in f q (Some x) xs)"

text \<open>A match of \<open>q\<close> that started before \<open>r\<close> can run into \<open>r\<close>.\<close>

fun mids :: "flags \<Rightarrow> jstring \<Rightarrow> jstring \<Rightarrow> bool" where
  "mids f [] r = False"
| "mids f (c # q) r = ((\<not> is_word c \<and> ov f q (Some c) r) \<or> mids f q r)"

text \<open>No match of the pattern \<open>q\<close> can overlap an inserted replacement \<open>r\<close>.\<close>

definition compatible :: "flags \<Rightarrow> jstring \<Rightarrow> jstring \<Rightarrow> bool" where
  "compatible f q r = (\<not> starts_in f q None r \<and> \<not> mids f q r)"

text \<open>A pattern or replacement that is not empty and begins and ends with a word unit.\<close>

definition wfp :: "jstring \<Rightarrow> bool" where
  "wfp p = (p \<noteq> [] \<and> is_word (hd p) \<and> is_word (last p))"

text \<open>The unit before the position behind \<open>m\<close>, when \<open>pv\<close> is the unit before \<open>m\<close>.\<close>

definition lastopt :: "nat option \<Rightarrow> jstring \<Rightarrow> nat option" where
  "lastopt pv m = (if m = [] then pv else Some (last m))"

text \<open>
  The rest \<open>q\<close> of a pattern, of which the part before has been matched up to the unit
  \<open>pv\<close>, can run into a replacement \<open>r\<close> here or later.
\<close>

definition clash :: "flags \<Rightarrow> jstring \<Rightarrow> nat option \<Rightarrow> jstring \<Rightarrow> bool" where
  "clash f q pv r = ((\<not> word_opt pv \<and> ov f q pv r) \<or> mids f q r)"

text \<open>
  One \<open>.replace(/\bpattern\b/gi, 'replacement')\<close> of a chain, and the chain: the rules are
  applied in the order of the list.
\<close>

definition apply_rule :: "flags \<Rightarrow> string \<times> string \<Rightarrow> jstring \<Rightarrow> jstring" where
  "apply_rule f rule t = replace f (word_re (fst rule)) (fixed (snd rule)) t"

definition apply_rules :: "flags \<Rightarrow> (string \<times> string) list \<Rightarrow> jstring \<Rightarrow> jstring" where
  "apply_rules f rules t = foldl (\<lambda>t rule. apply_rule f rule t) t rules"

text \<open>
  Patterns and replacements are well-formed, and no pattern can overlap a replacement of
  the list.
\<close>

definition rules_ok :: "flags \<Rightarrow> (string \<times> string) list \<Rightarrow> bool" where
  "rules_ok f rules =
     (list_all (\<lambda>rule. wfp (jstr (fst rule)) \<and> wfp (jstr (snd rule))) rules
      \<and> list_all (\<lambda>rule. list_all (\<lambda>rule'. compatible f (jstr (fst rule)) (jstr (snd rule'))) rules) rules)"

text \<open>The substitution tables of \<open>makeFormal\<close> and \<open>makeCasual\<close>, in the order of the source.\<close>

definition formal_rules :: "(string \<times> string) list" where
  "formal_rules =
     [(''can't'', ''cannot''), (''won't'', ''will not''), (''doesn't'', ''does not''),
      (''isn't'', ''is not''), (''I think'', ''It is my opinion that''), (''maybe'', ''perhaps''),
      (''okay'', ''acceptable''), (''kind of'', ''somewhat''), (''guys'', ''individuals'')]"

definition casual_rules :: "(string \<times> string) list" where
  "casual_rules =
     [(''cannot'', ''can't''), (''will not'', ''won't''), (''does not'', ''doesn't''),
      (''is not'', ''isn't''), (''It is my opinion that'', ''I think''), (''perhaps'', ''maybe''),
      (''acceptable'', ''okay''), (''somewhat'', ''kind of''), (''individuals'', ''people'')]"

section \<open>Properties of provider selection\<close>

lemma isProviderAvailable_simulation:
  "isProviderAvailable env svc (jstr ''simulation'')"
  by (simp add: isProviderAvailable_def jstr_def)

lemma detect_loop_find:
  "detect_loop env svc ps =
     (case List.find (isProviderAvailable env svc) ps of
        None \<Rightarrow> svc
      | Some p \<Rightarrow> svc\<lparr>currentProvider := p\<rparr>)"
  by (induction ps) simp_all

lemma find_providers_Some:
  "\<exists>p. List.find (isProviderAvailable env svc) providers = Some p \<and> p \<in> set providers"
proof -
  have "jstr ''simulation'' \<in> set providers"
    by (simp add: providers_def)
  then have "List.find (isProviderAvailable env svc) providers \<noteq> None"
    using isProviderAvailable_simulation [of env svc]
    by (auto simp: find_None_iff)
  then obtain p where p: "List.find (isProviderAvailable env svc) providers = Some p"
    by blast
  then have "p \<in> set providers"
    by (auto simp: find_Some_iff)
  with p show ?thesis by blast
qed

text \<open>
  Claim C7. Whatever credentials are configured, provider selection scans the list
  openai, claude, groq, huggingface, simulation in this order and makes the first
  available provider the current one; such a provider always exists, because the
  simulation provider is available and is in the list. This holds for the scan started
  from any service state, and so for the one the constructor runs.
\<close>

theorem C7_provider_selection:
  "providers = [jstr ''openai'', jstr ''claude'', jstr ''groq'', jstr ''huggingface'',
       jstr ''simulation'']
   \<and> List.find (isProviderAvailable env svc) providers
       = Some (currentProvider (detectAvailableProvider env svc))
   \<and> currentProvider (detectAvailableProvider env svc) \<in> set providers
   \<and> isProviderAvailable env svc (currentProvider (detectAvailableProvider env svc))
   \<and> currentProvider (constructor env) \<in> set providers"
proof -
  obtain p where p: "List.find (isProviderAvailable env svc) providers = Some p"
    and mem: "p \<in> set providers"
    using find_providers_Some by blast
  have cur: "currentProvider (detectAvailableProvider env svc) = p"
    by (simp add: detectAvailableProvider_def detect_loop_find p)
  have av: "isProviderAvailable env svc p"
    using p by (auto simp: find_Some_iff)
  let ?svc0 = "\<lparr> openaiKey = or_null (REACT_APP_OPENAI_API_KEY env),
       claudeKey = or_null (REACT_APP_CLAUDE_API_KEY env),
       huggingFaceKey = or_null (REACT_APP_HUGGINGFACE_API_KEY env),
       currentProvider = jstr ''simulation'' \<rparr>"
  obtain q where q: "List.find (isProviderAvailable env ?svc0) providers = Some q"
    and qmem: "q \<in> set providers"
    using find_providers_Some by blast
  have "currentProvider (constructor env) = q"
    by (simp add: constructor_def detectAvailableProvider_def detect_loop_find q)
  with p mem cur av qmem show ?thesis
    by (simp add: providers_def)
qed

section \<open>Properties of the synchronisation handler\<close>

text \<open>
  Any parsed object whose \<open>type\<close> is the string \<open>update\<close> overwrites the document with its
  \<open>data\<close> property, whatever other properties it has; without a \<open>data\<close> property the
  document becomes undefined.
\<close>

lemma onmessage_update_object:
  "map_of kvs (jstr ''type'') = Some (JStr (jstr ''update''))
   \<Longrightarrow> onmessage document (Inr (JObj kvs)) = map_of kvs (jstr ''data'')"
  by (simp add: onmessage_def)

lemma onmessage_update:
  "onmessage document (sync_message ''update'' d) = Some d"
  by (simp add: onmessage_def sync_message_def jstr_def)

lemma onmessage_init:
  "onmessage document (sync_message ''init'' d) = Some d"
  by (simp add: onmessage_def sync_message_def jstr_def)

text \<open>
  Claim C3. After any sequence of inbound messages, an update message sets the document
  to its payload, whatever the document was: nothing is merged. So init X followed by
  update Y leaves Y, and an update that arrives first, before any init, is applied too.
\<close>

theorem C3_update_overwrites:
  "receive_all document (msgs @ [sync_message ''update'' y]) = Some y
   \<and> receive_all document [sync_message ''init'' x, sync_message ''update'' y] = Some y
   \<and> receive_all document [sync_message ''update'' y] = Some y
   \<and> receive_all document [sync_message ''update'' y, sync_message ''init'' x] = Some x"
  by (simp add: receive_all_def onmessage_update onmessage_init)

section \<open>Splitting, trimming and joining\<close>

lemma split_runs_append_free:
  "\<forall>c\<in>set t. \<not> P c \<Longrightarrow> split_runs P acc (t @ s) = split_runs P (acc @ t) s"
  by (induction t arbitrary: acc) simp_all

lemma split_runs_free:
  "\<forall>c\<in>set acc. \<not> P c \<Longrightarrow> seg \<in> set (split_runs P acc s) \<Longrightarrow> c \<in> set seg \<Longrightarrow> \<not> P c"
  by (induction P acc s rule: split_runs.induct) (auto split: if_splits)

lemma split_runs_nonempty: "split_runs P acc s \<noteq> []"
  by (induction P acc s rule: split_runs.induct) auto

text \<open>The split of a string is never empty: the element \<open>[0]\<close> exists.\<close>

lemma split_regex_nonempty: "split_regex P s \<noteq> []"
  using split_runs_nonempty [of P "[]" s] by (simp add: split_regex_def split_limit_def)

lemma trim_Cons_space: "is_space c \<Longrightarrow> trim (c # s) = trim s"
  by (simp add: trim_def)

lemma set_trim: "c \<in> set (trim s) \<Longrightarrow> c \<in> set s"
  by (auto simp: trim_def dest!: set_dropWhileD)

lemma dropWhile_rev_keeps_head:
  assumes "u \<noteq> []" "\<not> P (hd u)"
  shows "dropWhile P (rev (dropWhile P (rev u))) = rev (dropWhile P (rev u))"
proof -
  obtain x xs where u: "u = x # xs" using assms(1) by (cases u) auto
  have nP: "\<not> P x" using assms(2) u by simp
  have "\<exists>ys. dropWhile P (rev xs @ [x]) = ys @ [x]"
    using nP by (simp add: dropWhile_append)
  then obtain ys where "dropWhile P (rev u) = ys @ [x]" using u by auto
  then show ?thesis using nP by simp
qed

lemma trim_idem: "trim (trim s) = trim s"
proof (cases "dropWhile is_space s = []")
  case True
  show ?thesis unfolding trim_def True by simp
next
  case False
  then have "\<not> is_space (hd (dropWhile is_space s))"
    by (simp add: hd_dropWhile)
  from dropWhile_rev_keeps_head [of "dropWhile is_space s" is_space, OF False this] show ?thesis
    by (simp add: trim_def)
qed

lemma filter_indexed_upt:
  "map fst (filter (\<lambda>(x, i). i < k) (zip xs [n ..< n + length xs])) = take (k - n) xs"
proof (induction xs arbitrary: n)
  case Nil
  then show ?case by simp
next
  case (Cons x xs)
  have "[n ..< n + length (x # xs)] = n # [Suc n ..< Suc n + length xs]"
    by (subst upt_rec) simp
  then show ?case using Cons [of "Suc n"]
    by (cases "n < k") (simp_all add: Suc_diff_Suc take_Cons')
qed

lemma filter_indexed_take: "filter_indexed (\<lambda>s i. i < k) xs = take k xs"
  using filter_indexed_upt [of k xs 0] by (simp add: filter_indexed_def)

lemma forEach_rows_eq:
  "forEach_rows table i xs = table @ concat (map (\<lambda>j. table_row (i + j) (xs ! j)) [0 ..< length xs])"
proof (induction xs arbitrary: table i)
  case Nil
  then show ?case by simp
next
  case (Cons x xs)
  have "[0 ..< length (x # xs)] = 0 # map Suc [0 ..< length xs]"
    by (simp add: upt_conv_Cons map_Suc_upt del: upt_Suc)
  then show ?case using Cons [of "table @ table_row i x" "i + 1"]
    by (simp add: comp_def del: upt_Suc)
qed

lemma is_terminator_simps: "is_terminator 46" "\<not> is_terminator 32"
  by (simp_all add: is_terminator_def)

lemma split_runs_join:
  assumes "ts \<noteq> []" "\<forall>t\<in>set ts. \<forall>c\<in>set t. \<not> is_terminator c"
  shows "split_runs is_terminator acc (join (jstr ''. '') ts @ jstr ''.'')
           = (acc @ hd ts) # map ((@) [32]) (tl ts) @ [[]]"
  using assms
proof (induction ts arbitrary: acc rule: list_nonempty_induct)
  case (single x)
  then show ?case
    by (simp add: split_runs_append_free jstr_def is_terminator_simps)
next
  case (cons x xs)
  obtain y ys where xs: "xs = y # ys"
    using cons.hyps by (cases xs) auto
  have free: "\<forall>c\<in>set x. \<not> is_terminator c"
    using cons.prems by simp
  have "split_runs is_terminator acc (join (jstr ''. '') (x # xs) @ jstr ''.'')
          = split_runs is_terminator acc (x @ 46 # 32 # (join (jstr ''. '') xs @ jstr ''.''))"
    by (simp add: xs jstr_def)
  also have "\<dots> = (acc @ x) # split_runs is_terminator [32] (join (jstr ''. '') xs @ jstr ''.'')"
    by (simp add: split_runs_append_free [OF free] is_terminator_simps)
  also have "split_runs is_terminator [32] (join (jstr ''. '') xs @ jstr ''.'')
          = ([32] @ hd xs) # map ((@) [32]) (tl xs) @ [[]]"
    using cons.IH [of "[32]"] cons.prems by simp
  finally show ?case
    by (simp add: xs)
qed

lemma sentences_of_join:
  assumes "ts \<noteq> []" "length ts < split_limit"
    and "\<forall>t\<in>set ts. nonblank t \<and> (\<forall>c\<in>set t. \<not> is_terminator c)"
  shows "sentences_of (join (jstr ''. '') ts @ jstr ''.'') = hd ts # map ((@) [32]) (tl ts)"
proof -
  have nb: "nonblank ([32] @ t) = nonblank t" for t
    by (simp add: nonblank_def trim_Cons_space is_space_def)
  have "split_regex is_terminator (join (jstr ''. '') ts @ jstr ''.'')
          = hd ts # map ((@) [32]) (tl ts) @ [[]]"
    using assms by (simp add: split_regex_def split_runs_join [of ts "[]", simplified])
  moreover have "filter nonblank (hd ts # map ((@) [32]) (tl ts) @ [[]]) = hd ts # map ((@) [32]) (tl ts)"
    using assms(1,3) by (cases ts) (auto simp: nonblank_def trim_Cons_space is_space_def trim_def filter_id_conv)
  ultimately show ?thesis by (simp add: sentences_of_def)
qed

section \<open>The rounded product with 0.7\<close>

lemma bit_length_upper: "v < 2 ^ bit_length v"
proof (induction v rule: bit_length.induct)
  case (1 n)
  show ?case
  proof (cases "n = 0")
    case True
    then show ?thesis by (simp add: bit_length.simps)
  next
    case False
    then have "n div 2 < 2 ^ bit_length (n div 2)" using 1 by simp
    then have "n < 2 * 2 ^ bit_length (n div 2)" by linarith
    then show ?thesis using False by (subst bit_length.simps) simp
  qed
qed

lemma bit_length_lower: "v \<noteq> 0 \<Longrightarrow> 2 ^ (bit_length v - 1) \<le> v"
proof (induction v rule: bit_length.induct)
  case (1 n)
  show ?case
  proof (cases "n div 2 = 0")
    case True
    then have "bit_length n = 1" using 1(2)
      by (subst bit_length.simps) (simp add: bit_length.simps)
    then show ?thesis using 1(2) by simp
  next
    case False
    then have ih: "2 ^ (bit_length (n div 2) - 1) \<le> n div 2" using 1 by simp
    have pos: "0 < bit_length (n div 2)" using False by (subst bit_length.simps) simp
    have "bit_length n = Suc (bit_length (n div 2))" using 1(2) by (subst bit_length.simps) simp
    then have "(2::nat) ^ (bit_length n - 1) = 2 * 2 ^ (bit_length (n div 2) - 1)"
      using pos by (cases "bit_length (n div 2)") simp_all
    then show ?thesis using ih by linarith
  qed
qed

lemma round_to_double_exact: "bit_length v \<le> 53 \<Longrightarrow> round_to_double v = v"
  by (simp add: round_to_double_def)

lemma round_to_double_near:
  assumes "53 < bit_length v" and e: "e = bit_length v - 53"
  shows "v \<le> round_to_double v + 2 ^ (e - 1)"
    and "round_to_double v \<le> v + 2 ^ (e - 1)"
    and "v \<le> m * 2 ^ e \<Longrightarrow> round_to_double v \<le> m * 2 ^ e"
proof -
  define q where "q = v div 2 ^ e"
  define r where "r = v mod 2 ^ e"
  define h :: nat where "h = 2 ^ (e - 1)"
  have epos: "0 < e" using assms by simp
  have two: "(2::nat) ^ e = 2 * h" using epos by (cases e) (simp_all add: h_def)
  have v: "v = q * 2 ^ e + r"
    using div_mult_mod_eq [of v "2 ^ e"] by (simp add: q_def r_def)
  have "r < 2 ^ e" by (simp add: r_def)
  then have r: "r < 2 * h" using two by simp
  have R: "round_to_double v = (if h < r \<or> (r = h \<and> odd q) then q + 1 else q) * 2 ^ e"
    using epos by (simp add: round_to_double_def Let_def e q_def r_def h_def)
  show "v \<le> round_to_double v + 2 ^ (e - 1)"
    unfolding R h_def[symmetric] using v r two by (auto simp: algebra_simps)
  show "round_to_double v \<le> v + 2 ^ (e - 1)"
    unfolding R h_def[symmetric] using v r two by (auto simp: algebra_simps)
  show "round_to_double v \<le> m * 2 ^ e" if le: "v \<le> m * 2 ^ e"
  proof (cases "h < r \<or> (r = h \<and> odd q)")
    case False
    then have "round_to_double v = q * 2 ^ e" using R by simp
    then show ?thesis using le v by linarith
  next
    case True
    then have "0 < r" by (auto simp: h_def)
    then have "q * 2 ^ e < m * 2 ^ e" using le v by linarith
    then have "q < m" by simp
    then have "q + 1 \<le> m" by simp
    then have "(q + 1) * 2 ^ e \<le> m * 2 ^ e" by (rule mult_le_mono1)
    then show ?thesis using R True by simp
  qed
qed

lemma ceil_div_unique:
  fixes T :: nat
  assumes "0 < T" "k * T < R" "R \<le> Suc k * T"
  shows "(R + (T - 1)) div T = Suc k"
proof (rule div_nat_eqI)
  show "T * Suc k \<le> R + (T - 1)" using assms by (simp add: algebra_simps, linarith?)
  show "R + (T - 1) < T * Suc (Suc k)" using assms by (simp add: algebra_simps, linarith?)
qed

lemma ceil_times_0_7_eq:
  assumes n: "n < 2 ^ 32"
  shows "ceil_times_0_7 n = (7 * n + 9) div 10"
proof (cases "n = 0")
  case True
  then show ?thesis
    by (simp add: ceil_times_0_7_def round_to_double_def bit_length.simps)
next
  case False
  define T :: nat where "T = 2 ^ 53"
  define v where "v = n * double_0_7"
  define R where "R = round_to_double v"
  define e where "e = bit_length v - 53"
  have Tval: "T = 9007199254740992" by (simp add: T_def)
  have nval: "n < 4294967296" using n by simp
  have A: "10 * v + 4 * n = 7 * n * T"
    by (simp add: v_def double_0_7_def Tval)
  have vlt: "v < n * T" using False by (simp add: v_def double_0_7_def Tval)
  have vpos: "v \<noteq> 0" using False by (simp add: v_def double_0_7_def)
  have ele: "e \<le> 32"
  proof -
    have "2 ^ (bit_length v - 1) \<le> v" using bit_length_lower [OF vpos] .
    also have "v < 2 ^ 32 * 2 ^ 53" using vlt n unfolding T_def
      by (meson less_le_trans mult_le_mono1 less_imp_le_nat)
    finally have "(2::nat) ^ (bit_length v - 1) < 2 ^ 85" by simp
    then have "bit_length v - 1 < 85" by (simp only: power_strict_increasing_iff [of 2] one_less_numeral_iff semiring_norm)
    then show ?thesis by (simp add: e_def)
  qed
  obtain d where d: "d < n" "v \<le> R + d" "R \<le> v + d"
    and mono: "\<And>m. v \<le> m * T \<Longrightarrow> R \<le> m * T"
  proof (cases "53 < bit_length v")
    case False
    then have "R = v" by (simp add: R_def round_to_double_exact)
    then show ?thesis using that [of 0] \<open>n \<noteq> 0\<close> by simp
  next
    case True
    note near = round_to_double_near [OF True e_def, folded R_def]
    have epos: "0 < e" using True by (simp add: e_def)
    have "2 ^ (bit_length v - 1) \<le> v" using bit_length_lower [OF vpos] .
    moreover have "bit_length v - 1 = (e - 1) + 53" using True by (simp add: e_def)
    ultimately have "2 ^ (e - 1) * T \<le> v" by (simp add: power_add T_def)
    then have "2 ^ (e - 1) * T < n * T" using vlt by linarith
    then have dn: "2 ^ (e - 1) < n" by simp
    have mono': "R \<le> m * T" if "v \<le> m * T" for m
    proof -
      have TT: "T = 2 ^ (53 - e) * 2 ^ e" using ele by (simp add: T_def flip: power_add)
      have "v \<le> (m * 2 ^ (53 - e)) * 2 ^ e" using that TT by (simp add: mult.assoc)
      from near(3) [OF this] show ?thesis using TT by (simp add: mult.assoc)
    qed
    show ?thesis using that [of "2 ^ (e - 1)"] dn near(1,2) mono' by blast
  qed
  define k where "k = (7 * n) div 10"
  define f where "f = (7 * n) mod 10"
  have kf: "7 * n = 10 * k + f" "f < 10" by (simp_all add: k_def f_def)
  show ?thesis
  proof (cases "f = 0")
    case True
    then have K: "(7 * n + 9) div 10 = k" using kf by simp
    have kpos: "0 < k" using False kf True by simp
    obtain k' where k': "k = Suc k'" using kpos by (cases k) auto
    have "10 * v + 4 * n = 10 * k * T" using A kf True by simp
    then have "v \<le> k * T" by simp
    then have up: "R \<le> Suc k' * T" using mono [of "Suc k'"] k' by simp
    have "10 * (k' * T) < 10 * R"
      using A kf True d nval k' Tval by (simp add: algebra_simps)
    then have lo: "k' * T < R" by simp
    have "(R + (T - 1)) div T = Suc k'"
      by (rule ceil_div_unique) (use up lo Tval in simp_all)
    then show ?thesis by (simp add: ceil_times_0_7_def K k' R_def v_def T_def)
  next
    case False
    then have K: "(7 * n + 9) div 10 = Suc k" using kf by simp
    have "10 * (k * T) < 10 * R"
      using A kf False d nval Tval by (simp add: algebra_simps)
    then have lo: "k * T < R" by simp
    have "10 * R \<le> 10 * (Suc k * T)"
      using A kf False d nval Tval by (simp add: algebra_simps)
    then have up: "R \<le> Suc k * T" by simp
    have "(R + (T - 1)) div T = Suc k"
      by (rule ceil_div_unique) (use up lo Tval in simp_all)
    then show ?thesis by (simp add: ceil_times_0_7_def K R_def v_def T_def)
  qed
qed

lemma ceiling_seven_tenths: "nat \<lceil>7 / 10 * real n\<rceil> = (7 * n + 9) div 10"
  by linarith

section \<open>Evaluating the model\<close>

text \<open>The equations that evaluate a \<open>replace\<close> on a given string.\<close>

lemmas re_eval = replace_def replace_scan.simps flags_g_def flags_gi_def flags_gm_def fixed_def
  word_re_def lit_def jstr_def Plus_def chr_eq_def canonicalize_def word_opt_def next_unit_def
  is_word_def is_space_def remaining_def with_capture_def capture_def is_line_terminator_def

lemma js_includes_self: "js_includes s s"
  by (cases s) simp_all

lemma improveText_example:
  "improveText (jstr ''i think teh cat is nice.'') = jstr ''I think the cat is nice.''"
  unfolding improveText_def Let_def
  by (simp add: re_eval trim_def toUpperCase_def upper_unit_def)

text \<open>
  The edit type \<open>improve\<close> of the toolbar runs \<open>improveWriting\<close>, which has no rule for this
  text; the capitalisation and the spelling are repaired by \<open>improveText\<close>, which the chat
  runs.
\<close>

lemma improveWriting_example:
  "improveWriting (jstr ''i think teh cat is nice.'') = jstr ''i think teh cat is nice.''"
  unfolding improveWriting_def by (simp add: re_eval)

lemma improveWriting_stuff: "improveWriting (jstr ''stuff'') = jstr ''material''"
  unfolding improveWriting_def by (simp add: re_eval)

section \<open>Properties of the service\<close>

lemma custom_distinct:
  "jstr ''custom'' \<noteq> jstr ''shorten''" "jstr ''custom'' \<noteq> jstr ''lengthen''"
  "jstr ''custom'' \<noteq> jstr ''improve''" "jstr ''custom'' \<noteq> jstr ''formal''"
  "jstr ''custom'' \<noteq> jstr ''casual''" "jstr ''custom'' \<noteq> jstr ''table''"
  "jstr ''custom'' \<noteq> jstr ''list''" "jstr ''custom'' \<noteq> jstr ''summarize''"
  by (simp_all add: jstr_def)

lemma getTextEdit_custom:
  "getTextEdit (jstr ''custom'') text cp =
     Resolved \<lparr> originalText = text,
                editedText = customEdit text (case cp of None \<Rightarrow> [] | Some p \<Rightarrow> p),
                message = jstr ''Custom edit applied: '' @ (case cp of None \<Rightarrow> [] | Some p \<Rightarrow> p),
                editType = jstr ''custom'' \<rparr>"
  unfolding getTextEdit_def Let_def
  by (simp only: custom_distinct if_False if_True prod.case simp_thms)

lemma customEdit_empty: "customEdit text [] = improveWriting text"
  by (simp add: customEdit_def toLowerCase_def jstr_def)

lemma getTextEdit_resolves: "\<exists>r. getTextEdit ty text cp = Resolved r"
  by (simp add: getTextEdit_def Let_def split_beta)

lemma simulateAIResponse_valid:
  "\<exists>t. simulateAIResponse rnd msg doc = Resolved t \<and> valid_ChatTurn t"
  by (simp add: simulateAIResponse_def Let_def valid_ChatTurn_def)

text \<open>
  Claim C1. \<open>getChatResponse\<close> never rejects, whatever the provider's call does: it always
  resolves. When the provider's call rejects, with any error, it resolves with the chat
  turn of the simulation, which is a valid chat turn (action \<open>chat\<close> without new content,
  or action \<open>modify\<close> with new content). \<open>getTextEdit\<close>, which calls no provider, always
  resolves with a result object; its \<open>editedText\<close> is a string.
\<close>

theorem C1_entry_points_never_reject:
  "(\<exists>v. getChatResponse svc outcome rnd msg doc = Resolved v)
   \<and> (\<exists>t. getChatResponse svc (Rejected e) rnd msg doc = Resolved (Turn t)
          \<and> simulateAIResponse rnd msg (case doc of None \<Rightarrow> [] | Some d \<Rightarrow> d) = Resolved t
          \<and> valid_ChatTurn t)
   \<and> (\<exists>r. getTextEdit ty text cp = Resolved r)"
proof -
  let ?d = "case doc of None \<Rightarrow> [] | Some d \<Rightarrow> d"
  obtain t where t: "simulateAIResponse rnd msg ?d = Resolved t" and v: "valid_ChatTurn t"
    using simulateAIResponse_valid by blast
  have a: "\<exists>v. getChatResponse svc outcome rnd msg doc = Resolved v"
    by (cases "callAI svc outcome rnd msg ?d (jstr ''chat'')")
       (simp_all add: getChatResponse_def Let_def t then_promise_def)
  have b: "getChatResponse svc (Rejected e) rnd msg doc = Resolved (Turn t)"
  proof (cases "callAI svc (Rejected e) rnd msg ?d (jstr ''chat'')")
    case (Resolved x)
    then have "currentProvider svc = jstr ''simulation''"
      by (auto simp: callAI_def Let_def then_promise_def split: if_splits)
    then have "callAI svc (Rejected e) rnd msg ?d (jstr ''chat'') = Resolved (Turn t)"
      by (simp add: callAI_def Let_def then_promise_def t)
    then show ?thesis
      by (simp add: getChatResponse_def Let_def)
  next
    case (Rejected e')
    then show ?thesis
      by (simp add: getChatResponse_def Let_def t then_promise_def)
  qed
  from a b t v getTextEdit_resolves show ?thesis by blast
qed

text \<open>
  Claim C5. For the document "i think teh cat is nice." and a chat message that asks to
  improve (its lower case contains "improve"), the simulation answers with action
  \<open>modify\<close> and the new content "I think the cat is nice.": the standalone i is
  capitalised and "teh" is corrected.
\<close>

theorem C5_improve_scenario:
  assumes "js_includes (toLowerCase msg) (jstr ''improve'')"
  shows "simulateAIResponse rnd msg (jstr ''i think teh cat is nice.'')
           = Resolved \<lparr> action = jstr ''modify'',
                        reply = jstr ''I've improved the grammar and style of your document!'',
                        newContent = Some (jstr ''I think the cat is nice.'') \<rparr>
         \<and> js_includes (jstr ''I think the cat is nice.'') (jstr ''I think the cat is nice.'')"
  using assms by (simp add: simulateAIResponse_def Let_def improveText_example js_includes_self)

theorem C5_improve_scenario_witness:
  "js_includes (toLowerCase (jstr ''Please improve my text'')) (jstr ''improve'')
   \<and> simulateAIResponse 0 (jstr ''Please improve my text'') (jstr ''i think teh cat is nice.'')
       = Resolved \<lparr> action = jstr ''modify'',
                    reply = jstr ''I've improved the grammar and style of your document!'',
                    newContent = Some (jstr ''I think the cat is nice.'') \<rparr>"
proof -
  have h: "js_includes (toLowerCase (jstr ''Please improve my text'')) (jstr ''improve'')"
    by (simp add: jstr_def toLowerCase_def lower_unit_def)
  show ?thesis using h C5_improve_scenario [OF h, of 0] by simp
qed

text \<open>
  Claim C6, as the code has it. With the intent \<open>custom\<close> and an empty or undefined
  instruction, \<open>getTextEdit\<close> raises no error and resolves with \<open>improveWriting\<close> of the
  selection as the edited text (the last branch of \<open>customEdit\<close>). The callers do not
  make this call: \<open>handleEditWithAI\<close> calls no edit for \<open>custom\<close> and leaves the
  suggestion empty, and the modal leaves the suggestion as it is for an empty instruction.
\<close>

theorem C6_custom_without_instruction:
  "getTextEdit (jstr ''custom'') text None
     = Resolved \<lparr> originalText = text, editedText = improveWriting text,
                  message = jstr ''Custom edit applied: '', editType = jstr ''custom'' \<rparr>
   \<and> getTextEdit (jstr ''custom'') text (Some [])
     = Resolved \<lparr> originalText = text, editedText = improveWriting text,
                  message = jstr ''Custom edit applied: '', editType = jstr ''custom'' \<rparr>
   \<and> handleEditWithAI (jstr ''custom'') text = []
   \<and> handleCustomEdit aiSuggestion text [] = aiSuggestion"
  by (simp add: getTextEdit_custom customEdit_empty handleEditWithAI_def handleCustomEdit_def
      nonblank_def trim_def)

text \<open>
  The claim as stated fails: for the selection "stuff" and an empty instruction the
  edited text is "material".
\<close>

theorem C6_counterexample:
  "getTextEdit (jstr ''custom'') (jstr ''stuff'') (Some [])
     = Resolved \<lparr> originalText = jstr ''stuff'', editedText = jstr ''material'',
                  message = jstr ''Custom edit applied: '', editType = jstr ''custom'' \<rparr>
   \<and> jstr ''material'' \<noteq> jstr ''stuff''"
  by (simp add: getTextEdit_custom customEdit_empty improveWriting_stuff) (simp add: jstr_def)

text \<open>
  Claim C9. For every edit type, known or not, and every selection, the result of
  \<open>getTextEdit\<close> reports the selection itself as \<open>originalText\<close> and the requested type as
  \<open>editType\<close>.
\<close>

theorem C9_original_and_type_kept:
  "\<exists>r. getTextEdit ty text customPrompt = Resolved r \<and> originalText r = text \<and> editType r = ty"
  by (simp add: getTextEdit_def Let_def split_beta)

text \<open>
  Claim C10. When the lower-cased message contains "summarize" or "summary", none of
  the earlier triggers applies, and the document is empty after trimming, the simulation
  resolves with the action \<open>chat\<close> and without \<open>newContent\<close>; it is not a \<open>modify\<close>.
\<close>

theorem C10_summary_of_blank_document:
  assumes "js_includes (toLowerCase msg) (jstr ''summarize'')
           \<or> js_includes (toLowerCase msg) (jstr ''summary'')"
    and "\<not> js_includes (toLowerCase msg) (jstr ''fix grammar'')"
    and "\<not> js_includes (toLowerCase msg) (jstr ''correct'')"
    and "\<not> js_includes (toLowerCase msg) (jstr ''improve'')"
    and "\<not> (js_includes (toLowerCase msg) (jstr ''add'')
            \<and> (js_includes (toLowerCase msg) (jstr ''content'')
               \<or> js_includes (toLowerCase msg) (jstr ''paragraph'')
               \<or> js_includes (toLowerCase msg) (jstr ''text'')))"
    and "trim doc = []"
  shows "\<exists>t. simulateAIResponse rnd msg doc = Resolved t \<and> action t = jstr ''chat''
            \<and> newContent t = None \<and> action t \<noteq> jstr ''modify''"
  using assms by (auto simp add: simulateAIResponse_def Let_def nonblank_def jstr_def)

theorem C10_summary_of_blank_document_witness:
  "(js_includes (toLowerCase (jstr ''Summarize this'')) (jstr ''summarize'')
      \<or> js_includes (toLowerCase (jstr ''Summarize this'')) (jstr ''summary''))
   \<and> trim (jstr ''  '') = []
   \<and> (\<exists>t. simulateAIResponse 7 (jstr ''Summarize this'') (jstr ''  '') = Resolved t
          \<and> action t = jstr ''chat'' \<and> newContent t = None \<and> action t \<noteq> jstr ''modify'')"
proof -
  have low: "toLowerCase (jstr ''Summarize this'') = jstr ''summarize this''"
    by (simp add: jstr_def toLowerCase_def lower_unit_def)
  have h1: "js_includes (toLowerCase (jstr ''Summarize this'')) (jstr ''summarize'')
            \<or> js_includes (toLowerCase (jstr ''Summarize this'')) (jstr ''summary'')"
    unfolding low by (simp add: jstr_def)
  have h2: "\<not> js_includes (toLowerCase (jstr ''Summarize this'')) (jstr ''fix grammar'')"
    unfolding low by (simp add: jstr_def)
  have h3: "\<not> js_includes (toLowerCase (jstr ''Summarize this'')) (jstr ''correct'')"
    unfolding low by (simp add: jstr_def)
  have h4: "\<not> js_includes (toLowerCase (jstr ''Summarize this'')) (jstr ''improve'')"
    unfolding low by (simp add: jstr_def)
  have h5: "\<not> (js_includes (toLowerCase (jstr ''Summarize this'')) (jstr ''add'')
            \<and> (js_includes (toLowerCase (jstr ''Summarize this'')) (jstr ''content'')
               \<or> js_includes (toLowerCase (jstr ''Summarize this'')) (jstr ''paragraph'')
               \<or> js_includes (toLowerCase (jstr ''Summarize this'')) (jstr ''text'')))"
    unfolding low by (simp add: jstr_def)
  have h6: "trim (jstr ''  '') = []"
    by (simp add: jstr_def trim_def is_space_def)
  show ?thesis
    using h1 h6 C10_summary_of_blank_document [OF h1 h2 h3 h4 h5 h6, of 7] by blast
qed

section \<open>Properties of shortening and of the table\<close>

lemma sentences_of_length: "length (sentences_of text) \<le> split_limit"
proof -
  have "length (sentences_of text) \<le> length (split_regex is_terminator text)"
    by (simp add: sentences_of_def)
  also have "\<dots> \<le> split_limit" by (simp add: split_regex_def)
  finally show ?thesis .
qed

lemma sentences_of_elem:
  assumes "s \<in> set (sentences_of text)"
  shows "nonblank s" and "c \<in> set s \<Longrightarrow> \<not> is_terminator c"
proof -
  show "nonblank s" using assms by (simp add: sentences_of_def)
  have "s \<in> set (split_runs is_terminator [] text)"
    using assms by (auto simp: sentences_of_def split_regex_def dest: in_set_takeD)
  then show "c \<in> set s \<Longrightarrow> \<not> is_terminator c"
    using split_runs_free [of "[]" is_terminator s "text" c] by simp
qed

lemma trimmed_sentence:
  assumes "s \<in> set (sentences_of text)"
  shows "nonblank (trim s) \<and> (\<forall>c\<in>set (trim s). \<not> is_terminator c)"
  using sentences_of_elem [OF assms] by (auto simp: nonblank_def trim_idem dest: set_trim)

lemma map_trim_resplit:
  "ts \<noteq> [] \<Longrightarrow> map trim (hd ts # map ((@) [32]) (tl ts)) = map trim ts"
  by (cases ts) (simp_all add: trim_Cons_space is_space_def)

lemma shortenText_many:
  assumes N: "1 < length (sentences_of text)"
  defines "k \<equiv> (7 * length (sentences_of text) + 9) div 10"
  shows "shortenText text = join (jstr ''. '') (take k (map trim (sentences_of text))) @ jstr ''.''"
    and "map trim (sentences_of (shortenText text)) = take k (map trim (sentences_of text))"
    and "length (sentences_of (shortenText text)) = k"
proof -
  let ?S = "sentences_of text"
  let ?ts = "take k (map trim ?S)"
  have lim: "length ?S < 2 ^ 32"
    using sentences_of_length [of "text"] by (simp add: split_limit_def)
  have ceil: "ceil_times_0_7 (length ?S) = k"
    using ceil_times_0_7_eq [OF lim] by (simp add: k_def)
  show eq: "shortenText text = join (jstr ''. '') ?ts @ jstr ''.''"
    using N by (simp add: shortenText_def Let_def ceil filter_indexed_take)
  have kle: "k \<le> length ?S" and kpos: "0 < k" and klim: "k < split_limit"
    using N lim by (simp_all add: k_def split_limit_def)
  have len: "length ?ts = k" using kle by simp
  have ne: "?ts \<noteq> []" using kpos len by auto
  have elems: "\<forall>t\<in>set ?ts. nonblank t \<and> (\<forall>c\<in>set t. \<not> is_terminator c)"
  proof
    fix t assume "t \<in> set ?ts"
    then have "t \<in> set (map trim ?S)" by (rule in_set_takeD)
    then obtain s where "s \<in> set ?S" "t = trim s" by auto
    then show "nonblank t \<and> (\<forall>c\<in>set t. \<not> is_terminator c)"
      using trimmed_sentence by blast
  qed
  have re: "sentences_of (shortenText text) = hd ?ts # map ((@) [32]) (tl ?ts)"
    unfolding eq using sentences_of_join [OF ne _ elems] len klim by simp
  have "trim \<circ> trim = trim"
    by (rule ext) (simp add: trim_idem)
  then have "map trim ?ts = ?ts"
    by (simp add: take_map)
  then show "map trim (sentences_of (shortenText text)) = ?ts"
    unfolding re using map_trim_resplit [OF ne] by simp
  show "length (sentences_of (shortenText text)) = k"
    unfolding re using ne len by (cases ?ts) auto
qed

text \<open>
  Claim C2. If the text has at most one sentence (a segment between runs of the
  terminators . ! ? that is not blank), \<open>shortenText\<close> returns it unchanged. If it has
  N > 1 sentences, the result is the first ceil(0.7 N) of them, trimmed, joined with
  ". " and closed by "."; split again, the result has exactly these ceil(0.7 N)
  sentences. A text of 4 sentences gives 3. The number kept is the one that
  \<open>Math.ceil(N * 0.7)\<close> computes in double arithmetic.
\<close>

theorem C2_shorten:
  "(length (sentences_of text) \<le> 1 \<longrightarrow> shortenText text = text)
   \<and> (1 < length (sentences_of text) \<longrightarrow>
        shortenText text
          = join (jstr ''. '')
              (take (nat \<lceil>7 / 10 * real (length (sentences_of text))\<rceil>) (map trim (sentences_of text)))
            @ jstr ''.''
        \<and> map trim (sentences_of (shortenText text))
          = take (nat \<lceil>7 / 10 * real (length (sentences_of text))\<rceil>) (map trim (sentences_of text))
        \<and> length (sentences_of (shortenText text)) = nat \<lceil>7 / 10 * real (length (sentences_of text))\<rceil>)
   \<and> (length (sentences_of text) = 4 \<longrightarrow> length (sentences_of (shortenText text)) = 3)"
proof -
  have a: "length (sentences_of text) \<le> 1 \<longrightarrow> shortenText text = text"
    by (simp add: shortenText_def Let_def)
  have c: "length (sentences_of text) = 4 \<longrightarrow> length (sentences_of (shortenText text)) = 3"
    using shortenText_many(3) [of "text"] by simp
  show ?thesis
    unfolding ceiling_seven_tenths
    using a c shortenText_many [of "text"] by simp
qed

lemma sentences_of_meeting:
  "sentences_of (jstr ''The meeting went well. We discussed the budget. Everyone agreed to the plan. Next steps were assigned.'')
     = [jstr ''The meeting went well'', jstr '' We discussed the budget'',
        jstr '' Everyone agreed to the plan'', jstr '' Next steps were assigned'']"
  by (simp add: sentences_of_def split_regex_def split_limit_def jstr_def is_terminator_def
      nonblank_def trim_def is_space_def)

theorem C2_shorten_witness:
  "1 < length (sentences_of (jstr ''The meeting went well. We discussed the budget. Everyone agreed to the plan. Next steps were assigned.''))
   \<and> length (sentences_of (jstr ''The meeting went well. We discussed the budget. Everyone agreed to the plan. Next steps were assigned.'')) = 4
   \<and> shortenText (jstr ''The meeting went well. We discussed the budget. Everyone agreed to the plan. Next steps were assigned.'')
       = jstr ''The meeting went well. We discussed the budget. Everyone agreed to the plan.''
   \<and> length (sentences_of (shortenText (jstr ''The meeting went well. We discussed the budget. Everyone agreed to the plan. Next steps were assigned.''))) = 3"
proof -
  let ?text = "jstr ''The meeting went well. We discussed the budget. Everyone agreed to the plan. Next steps were assigned.''"
  have len: "length (sentences_of ?text) = 4"
    by (simp add: sentences_of_meeting)
  have k: "nat \<lceil>7 / 10 * real (length (sentences_of ?text))\<rceil> = 3"
    unfolding ceiling_seven_tenths len by simp
  have "shortenText ?text
          = join (jstr ''. '') (take 3 (map trim (sentences_of ?text))) @ jstr ''.''"
    using C2_shorten [of ?text] len k by simp
  also have "\<dots> = jstr ''The meeting went well. We discussed the budget. Everyone agreed to the plan.''"
    by (simp add: sentences_of_meeting) (simp add: jstr_def trim_def is_space_def)
  finally have s: "shortenText ?text
      = jstr ''The meeting went well. We discussed the budget. Everyone agreed to the plan.''" .
  have "length (sentences_of (shortenText ?text)) = 3"
    using C2_shorten [of ?text, THEN conjunct2, THEN conjunct2] len by blast
  with len s show ?thesis by simp
qed

lemma show_nat_digits: "c \<in> set (show_nat n) \<Longrightarrow> 48 \<le> c \<and> c \<le> 57"
proof (induction n rule: show_nat.induct)
  case (1 n)
  show ?case
  proof (cases "n < 10")
    case True
    then show ?thesis using 1(2) by (simp add: show_nat.simps)
  next
    case False
    then have "c \<in> set (show_nat (n div 10)) \<or> c = 48 + n mod 10"
      using 1(2) by (subst (asm) show_nat.simps) auto
    then show ?thesis using 1(1) False by auto
  qed
qed

lemma table_row_line_feeds:
  assumes "10 \<notin> set s"
  shows "count_list (table_row i s) 10 = 1"
proof -
  have "10 \<notin> set (trim s)" using assms set_trim by blast
  moreover have "10 \<notin> set (show_nat (i + 1))" using show_nat_digits by fastforce
  ultimately show ?thesis
    by (simp add: table_row_def jstr_def count_list_0_iff [THEN iffD2])
qed

lemma forEach_rows_line_feeds:
  "\<forall>s\<in>set xs. 10 \<notin> set s
   \<Longrightarrow> count_list (forEach_rows table i xs) 10 = count_list table 10 + length xs"
  by (induction xs arbitrary: table i) (simp_all add: table_row_line_feeds)

text \<open>
  Claim C8. If the text has fewer than 2 sentences, \<open>convertToTable\<close> returns it
  unchanged. If it has N \<ge> 2 sentences, the result is the two header rows followed by
  exactly N data rows, and data row i (counted from 1) holds the number i and the
  trimmed i-th sentence between pipes. Every row ends with a line feed; when no sentence
  contains a line feed itself, the table has exactly N + 2 lines.
\<close>

theorem C8_table:
  "(length (sentences_of text) < 2 \<longrightarrow> convertToTable text = text)
   \<and> (2 \<le> length (sentences_of text) \<longrightarrow>
        (\<exists>rows. convertToTable text
                  = concat ([jstr ''| Item | Description |\<newline>'', jstr ''|------|-------------|\<newline>''] @ rows)
           \<and> length rows = length (sentences_of text)
           \<and> (\<forall>i < length rows.
                 rows ! i = jstr ''| '' @ show_nat (i + 1) @ jstr '' | ''
                            @ trim (sentences_of text ! i) @ jstr '' |\<newline>''))
        \<and> ((\<forall>s\<in>set (sentences_of text). 10 \<notin> set s) \<longrightarrow>
              count_list (convertToTable text) 10 = length (sentences_of text) + 2))"
proof -
  let ?S = "sentences_of text"
  let ?rows = "map (\<lambda>j. table_row j (?S ! j)) [0 ..< length ?S]"
  have a: "length ?S < 2 \<longrightarrow> convertToTable text = text"
    by (simp add: convertToTable_def Let_def)
  have b: "convertToTable text
             = concat ([jstr ''| Item | Description |\<newline>'', jstr ''|------|-------------|\<newline>''] @ ?rows)"
    if "2 \<le> length ?S"
    using that by (simp add: convertToTable_def Let_def forEach_rows_eq jstr_def)
  have c: "\<forall>i < length ?rows. ?rows ! i = jstr ''| '' @ show_nat (i + 1) @ jstr '' | ''
                            @ trim (?S ! i) @ jstr '' |\<newline>''"
    by (simp add: table_row_def)
  have d: "length ?rows = length ?S" by simp
  have e: "count_list (convertToTable text) 10 = length ?S + 2"
    if "2 \<le> length ?S" "\<forall>s\<in>set ?S. 10 \<notin> set s"
    using that by (simp add: convertToTable_def Let_def forEach_rows_line_feeds) (simp add: jstr_def)
  show ?thesis using a b c d e by blast
qed

lemma sentences_of_ab: "sentences_of (jstr ''a. b'') = [jstr ''a'', jstr '' b'']"
  by (simp add: sentences_of_def split_regex_def split_limit_def jstr_def is_terminator_def
      nonblank_def trim_def is_space_def)

theorem C8_table_witness:
  "2 \<le> length (sentences_of (jstr ''a. b''))
   \<and> (\<exists>rows. convertToTable (jstr ''a. b'')
               = concat ([jstr ''| Item | Description |\<newline>'', jstr ''|------|-------------|\<newline>''] @ rows)
        \<and> length rows = 2
        \<and> rows ! 0 = jstr ''| 1 | a |\<newline>''
        \<and> rows ! 1 = jstr ''| 2 | b |\<newline>'')
   \<and> count_list (convertToTable (jstr ''a. b'')) 10 = 4"
proof -
  have len: "length (sentences_of (jstr ''a. b'')) = 2"
    by (simp add: sentences_of_ab)
  then have h: "2 \<le> length (sentences_of (jstr ''a. b''))" by simp
  note table = C8_table [of "jstr ''a. b''", THEN conjunct2, THEN mp, OF h]
  from table [THEN conjunct1] len obtain rows where
    r: "convertToTable (jstr ''a. b'')
          = concat ([jstr ''| Item | Description |\<newline>'', jstr ''|------|-------------|\<newline>''] @ rows)"
       "length rows = 2"
       "\<forall>i < length rows. rows ! i = jstr ''| '' @ show_nat (i + 1) @ jstr '' | ''
            @ trim (sentences_of (jstr ''a. b'') ! i) @ jstr '' |\<newline>''"
    by auto
  have "rows ! 0 = jstr ''| 1 | a |\<newline>''" "rows ! 1 = jstr ''| 2 | b |\<newline>''"
    using r(2,3) by (simp_all add: sentences_of_ab) (simp_all add: show_nat.simps jstr_def trim_def is_space_def)
  moreover have "\<forall>s\<in>set (sentences_of (jstr ''a. b'')). 10 \<notin> set s"
    by (simp add: sentences_of_ab) (simp add: jstr_def)
  then have "count_list (convertToTable (jstr ''a. b'')) 10 = 4"
    using table [THEN conjunct2] len by simp
  ultimately show ?thesis using h r(1,2) by blast
qed

section \<open>Idempotence of the formal and the casual substitutions\<close>

lemma seqs_Cons: "rs \<noteq> [] \<Longrightarrow> seqs (r # rs) = Seq r (seqs rs)"
  by (cases rs) simp_all

lemma ms_literal:
  "ms f (seqs (map Chr p @ [WordB])) (prev, s, caps) =
     (case lit_end f p prev s of None \<Rightarrow> [] | Some (pv, rest) \<Rightarrow> [(pv, rest, caps)])"
proof (induction p arbitrary: prev s)
  case Nil
  then show ?case by simp
next
  case (Cons c p)
  have "seqs (map Chr (c # p) @ [WordB]) = Seq (Chr c) (seqs (map Chr p @ [WordB]))"
    by (simp add: seqs_Cons)
  then show ?case using Cons
    by (cases s) simp_all
qed

lemma word_re_wre: "word_re w = wre (jstr w)"
  by (simp add: word_re_def wre_def lit_def)

lemma ms_word:
  "ms f (wre p) (prev, s, caps) =
     (case wm f p prev s of None \<Rightarrow> [] | Some (pv, rest) \<Rightarrow> [(pv, rest, caps)])"
proof -
  have "wre p = Seq WordB (seqs (map Chr p @ [WordB]))"
    by (simp add: wre_def seqs_Cons)
  then show ?thesis
    by (simp add: ms_literal wm_def)
qed

lemma lit_end_length:
  "lit_end f p prev s = Some (pv, rest) \<Longrightarrow> length s = length p + length rest"
  by (induction f p prev s rule: lit_end.induct) (auto split: if_splits)

lemma scan_word:
  assumes "p \<noteq> []"
  shows "replace_scan f (wre p) (\<lambda>m c. r) prev s =
     (case wm f p prev s of
        Some (pv, rest) \<Rightarrow> r @ replace_scan f (wre p) (\<lambda>m c. r) pv rest
      | None \<Rightarrow> (case s of [] \<Rightarrow> []
                 | c # cs \<Rightarrow> c # replace_scan f (wre p) (\<lambda>m c. r) (Some c) cs))"
proof (cases "wm f p prev s")
  case None
  then show ?thesis
    by (subst replace_scan.simps) (simp add: ms_word)
next
  case (Some a)
  obtain pv rest where a: "a = (pv, rest)" by (cases a)
  have "lit_end f p prev s = Some (pv, rest)"
    using Some a by (simp add: wm_def split: if_splits)
  then have "length rest < length s"
    using lit_end_length assms by fastforce
  then show ?thesis using Some a
    by (subst replace_scan.simps) (simp add: ms_word Let_def)
qed


lemma chr_eq_word: "chr_eq f c x \<Longrightarrow> is_word c = is_word x"
  by (auto simp: chr_eq_def canonicalize_def is_word_def split: if_splits)

lemma lit_end_ov:
  "lit_end f q pv (r @ t) \<noteq> None \<Longrightarrow> t = [] \<or> \<not> is_word (hd t) \<Longrightarrow> ov f q pv r"
proof (induction f q pv r rule: ov.induct)
  case (1 f pv)
  then show ?case by (cases t) (auto simp: next_unit_def word_opt_def split: if_splits)
next
  case (2 f pv x xs)
  then show ?case by (auto simp: next_unit_def word_opt_def split: if_splits)
next
  case (3 f c q pv)
  then show ?case by (cases t) (auto dest: chr_eq_word split: if_splits)
next
  case (4 f c q pv x xs)
  then show ?case by (auto split: if_splits)
qed

lemma ov_cong: "word_opt a = word_opt b \<Longrightarrow> ov f q a r = ov f q b r"
  by (cases q; cases r) simp_all

lemma starts_in_cong: "word_opt a = word_opt b \<Longrightarrow> starts_in f q a r = starts_in f q b r"
  by (cases r) (simp_all add: ov_cong [of a b])

lemma lit_end_cong:
  "word_opt a = word_opt b \<Longrightarrow> (lit_end f q a s = None) = (lit_end f q b s = None)"
  by (cases q; cases s) simp_all

lemma wm_cong: "word_opt a = word_opt b \<Longrightarrow> (wm f q a s = None) = (wm f q b s = None)"
  using lit_end_cong [of a b f q s] by (simp add: wm_def)

lemma hasm_cong: "word_opt a = word_opt b \<Longrightarrow> hasm f q a s = hasm f q b s"
  using wm_cong [of a b f q] by (cases s) simp_all

lemma hasm_append:
  "hasm f q pv (r @ t) \<Longrightarrow> t = [] \<or> \<not> is_word (hd t)
   \<Longrightarrow> starts_in f q pv r \<or> hasm f q (lastopt pv r) t"
proof (induction r arbitrary: pv)
  case Nil
  then show ?case by (simp add: lastopt_def)
next
  case (Cons x xs)
  from Cons.prems(1) consider "wm f q pv ((x # xs) @ t) \<noteq> None" | "hasm f q (Some x) (xs @ t)"
    by auto
  then show ?case
  proof cases
    case 1
    then have "word_opt pv \<noteq> is_word x" and "lit_end f q pv ((x # xs) @ t) \<noteq> None"
      by (auto simp: wm_def next_unit_def word_opt_def split: if_splits)
    then show ?thesis using lit_end_ov [OF _ Cons.prems(2)] by simp
  next
    case 2
    from Cons.IH [OF this Cons.prems(2)] show ?thesis
      by (auto simp: lastopt_def)
  qed
qed

lemma hasm_suffix: "hasm f q (lastopt prev m) rest \<Longrightarrow> hasm f q prev (m @ rest)"
proof (induction m arbitrary: prev)
  case Nil
  then show ?case by (simp add: lastopt_def)
next
  case (Cons x m)
  have "lastopt (Some x) m = lastopt prev (x # m)" by (simp add: lastopt_def)
  then show ?case using Cons by simp
qed

lemma lit_end_split:
  "lit_end f p prev s = Some (pv, rest) \<Longrightarrow> \<exists>m. s = m @ rest \<and> pv = lastopt prev m"
proof (induction f p prev s rule: lit_end.induct)
  case (1 f prev s)
  then show ?case by (auto simp: lastopt_def split: if_splits)
next
  case (2 f c p prev)
  then show ?case by simp
next
  case (3 f c p prev x xs)
  then obtain m where "xs = m @ rest" "pv = lastopt (Some x) m"
    by (auto split: if_splits)
  then have "x # xs = (x # m) @ rest \<and> pv = lastopt prev (x # m)"
    by (simp add: lastopt_def)
  then show ?case by blast
qed

lemma lit_end_word:
  "lit_end f p prev s = Some (pv, rest) \<Longrightarrow> p \<noteq> [] \<Longrightarrow> is_word (last p)
   \<Longrightarrow> word_opt pv \<and> (rest = [] \<or> \<not> is_word (hd rest))"
proof (induction f p prev s rule: lit_end.induct)
  case (1 f prev s)
  then show ?case by simp
next
  case (2 f c p prev)
  then show ?case by simp
next
  case (3 f c p prev x xs)
  show ?case
  proof (cases "p = []")
    case True
    then show ?thesis using 3 
      by (cases xs) (auto simp: word_opt_def next_unit_def dest: chr_eq_word split: if_splits)
  next
    case False
    then show ?thesis using 3 by (auto split: if_splits)
  qed
qed

lemma wm_Some:
  assumes "wm f p prev s = Some (pv, rest)" "wfp p"
  shows "\<not> word_opt prev" "word_opt pv" "rest = [] \<or> \<not> is_word (hd rest)"
    "\<exists>m. s = m @ rest \<and> pv = lastopt prev m" "length rest < length s"
proof -
  have le: "lit_end f p prev s = Some (pv, rest)"
    and b: "word_opt prev \<noteq> word_opt (next_unit s)"
    using assms(1) by (auto simp: wm_def split: if_splits)
  obtain c p' where p: "p = c # p'" "is_word c" using assms(2) by (cases p) (auto simp: wfp_def)
  obtain x xs where s: "s = x # xs" "chr_eq f c x" using le p by (cases s) (auto split: if_splits)
  then have "is_word x" using p chr_eq_word by blast
  then show "\<not> word_opt prev" using b s by (simp add: next_unit_def word_opt_def)
  show "word_opt pv" "rest = [] \<or> \<not> is_word (hd rest)"
    using lit_end_word [OF le] assms(2) by (auto simp: wfp_def)
  show "\<exists>m. s = m @ rest \<and> pv = lastopt prev m" using lit_end_split [OF le] .
  show "length rest < length s" using lit_end_length [OF le] p by simp
qed

lemma wm_nonword_head:
  assumes "wfp p" "s = [] \<or> \<not> is_word (hd s)"
  shows "wm f p prev s = None"
proof -
  obtain c p' where p: "p = c # p'" "is_word c" using assms(1) by (cases p) (auto simp: wfp_def)
  show ?thesis using assms(2) p
    by (cases s) (auto simp: wm_def dest: chr_eq_word)
qed

lemma scan_head_nonword:
  assumes "wfp p" "s = [] \<or> \<not> is_word (hd s)"
  shows "replace_scan f (wre p) (\<lambda>m c. r) prev s = []
         \<or> \<not> is_word (hd (replace_scan f (wre p) (\<lambda>m c. r) prev s))"
proof -
  have "p \<noteq> []" using assms(1) by (simp add: wfp_def)
  from scan_word [OF this, of f r prev s] wm_nonword_head [OF assms, of f prev] assms(2)
  show ?thesis by (cases s) auto
qed

lemma clash_step:
  assumes "\<not> mids f (x # q) r" "chr_eq f x c"
  shows "\<not> clash f q (Some c) r"
proof -
  have "is_word x = is_word c" using assms(2) by (rule chr_eq_word)
  then have "ov f q (Some c) r = ov f q (Some x) r"
    by (intro ov_cong) (simp add: word_opt_def)
  then show ?thesis using assms(1) \<open>is_word x = is_word c\<close>
    by (auto simp: clash_def word_opt_def)
qed

lemma prefix_transfer:
  assumes "wfp p" "wfp r"
  shows "\<not> clash f q pv r \<Longrightarrow> lit_end f q pv (replace_scan f (wre p) (\<lambda>m c. r) pv s) \<noteq> None
         \<Longrightarrow> lit_end f q pv s \<noteq> None"
proof (induction "length s" arbitrary: s q pv rule: less_induct)
  case less
  have pne: "p \<noteq> []" using assms(1) by (simp add: wfp_def)
  note sw = scan_word [OF pne, of f r pv s]
  show ?case
  proof (cases "wm f p pv s")
    case (Some a)
    obtain pv' rest where a: "a = (pv', rest)" by (cases a)
    note w = wm_Some [OF Some [unfolded a] assms(1)]
    have out: "replace_scan f (wre p) (\<lambda>m c. r) pv s = r @ replace_scan f (wre p) (\<lambda>m c. r) pv' rest"
      using sw Some a by simp
    have tl: "replace_scan f (wre p) (\<lambda>m c. r) pv' rest = []
              \<or> \<not> is_word (hd (replace_scan f (wre p) (\<lambda>m c. r) pv' rest))"
      using scan_head_nonword [OF assms(1) w(3)] .
    have "ov f q pv r"
      using lit_end_ov [OF less.prems(2) [unfolded out] tl] .
    then have "clash f q pv r" using w(1) by (simp add: clash_def)
    then show ?thesis using less.prems(1) by simp
  next
    case None
    show ?thesis
    proof (cases s)
      case Nil
      then show ?thesis using less.prems(2) sw None by simp
    next
      case (Cons c cs)
      have out: "replace_scan f (wre p) (\<lambda>m c. r) pv s = c # replace_scan f (wre p) (\<lambda>m c. r) (Some c) cs"
        using sw None Cons by simp
      show ?thesis
      proof (cases q)
        case Nil
        have "lit_end f [] pv (c # replace_scan f (wre p) (\<lambda>m c. r) (Some c) cs) \<noteq> None"
          using less.prems(2) unfolding out Nil .
        then have "word_opt pv \<noteq> word_opt (Some c)"
          by (simp add: next_unit_def split: if_splits)
        then show ?thesis using Nil \<open>s = c # cs\<close> by (simp add: next_unit_def)
      next
        case (Cons x q')
        have ce: "chr_eq f x c"
          and le: "lit_end f q' (Some c) (replace_scan f (wre p) (\<lambda>m c. r) (Some c) cs) \<noteq> None"
          using less.prems(2) out Cons by (auto split: if_splits)
        have "\<not> mids f (x # q') r" using less.prems(1) Cons by (simp add: clash_def)
        then have nc: "\<not> clash f q' (Some c) r" using ce by (rule clash_step)
        have "lit_end f q' (Some c) cs \<noteq> None"
          using less.hyps [OF _ nc le] \<open>s = c # cs\<close> by simp
        then show ?thesis using ce Cons \<open>s = c # cs\<close> by simp
      qed
    qed
  qed
qed


lemma no_new_match:
  assumes "wfp p" "wfp r" "q \<noteq> []" "compatible f q r"
  shows "hasm f q prev (replace_scan f (wre p) (\<lambda>m c. r) prev s) \<Longrightarrow> hasm f q prev s \<and> q \<noteq> p"
proof (induction "length s" arbitrary: s prev rule: less_induct)
  case less
  have pne: "p \<noteq> []" using assms(1) by (simp add: wfp_def)
  have rw: "r \<noteq> []" "is_word (last r)" using assms(2) by (simp_all add: wfp_def)
  have nst: "\<not> starts_in f q None r" and nmid: "\<not> mids f q r"
    using assms(4) by (simp_all add: compatible_def)
  note sw = scan_word [OF pne, of f r prev s]
  show ?case
  proof (cases "wm f p prev s")
    case (Some a)
    obtain pv' rest where a: "a = (pv', rest)" by (cases a)
    note w = wm_Some [OF Some [unfolded a] assms(1)]
    let ?out' = "replace_scan f (wre p) (\<lambda>m c. r) pv' rest"
    have out: "replace_scan f (wre p) (\<lambda>m c. r) prev s = r @ ?out'"
      using sw Some a by simp
    have tl: "?out' = [] \<or> \<not> is_word (hd ?out')"
      using scan_head_nonword [OF assms(1) w(3)] .
    have "starts_in f q prev r = starts_in f q None r"
      using w(1) by (intro starts_in_cong) (simp add: word_opt_def)
    then have "hasm f q (lastopt prev r) ?out'"
      using hasm_append [OF less.prems [unfolded out] tl] nst by simp
    moreover have "word_opt (lastopt prev r) = word_opt pv'"
      using rw w(2) by (simp add: lastopt_def word_opt_def)
    ultimately have "hasm f q pv' ?out'"
      using hasm_cong by blast
    then have ih: "hasm f q pv' rest \<and> q \<noteq> p"
      using less.hyps [OF w(5)] by simp
    obtain m where m: "s = m @ rest" "pv' = lastopt prev m" using w(4) by blast
    then have "hasm f q prev s" using ih hasm_suffix by blast
    then show ?thesis using ih by simp
  next
    case None
    show ?thesis
    proof (cases s)
      case Nil
      obtain x q' where q: "q = x # q'" using assms(3) by (cases q) auto
      have "wm f q prev [] = None" by (simp add: wm_def q)
      moreover have "replace_scan f (wre p) (\<lambda>m c. r) prev s = []"
        using sw None Nil by simp
      ultimately show ?thesis using less.prems by simp
    next
      case (Cons c cs)
      let ?out' = "replace_scan f (wre p) (\<lambda>m c. r) (Some c) cs"
      have out: "replace_scan f (wre p) (\<lambda>m c. r) prev s = c # ?out'"
        using sw None Cons by simp
      from less.prems [unfolded out]
      consider "wm f q prev (c # ?out') \<noteq> None" | "hasm f q (Some c) ?out'"
        by auto
      then show ?thesis
      proof cases
        case 2
        then have "hasm f q (Some c) cs \<and> q \<noteq> p"
          using less.hyps [of cs "Some c"] Cons by simp
        then show ?thesis using Cons by simp
      next
        case 1
        obtain x q' where q: "q = x # q'" using assms(3) by (cases q) auto
        from 1 have b: "word_opt prev \<noteq> is_word c"
          and ce: "chr_eq f x c"
          and le: "lit_end f q' (Some c) ?out' \<noteq> None"
          by (auto simp: wm_def q next_unit_def word_opt_def split: if_splits)
        have nc: "\<not> clash f q' (Some c) r"
          using nmid ce unfolding q by (rule clash_step)
        have "lit_end f q' (Some c) cs \<noteq> None"
          using prefix_transfer [OF assms(1,2) nc le] .
        then have "wm f q prev s \<noteq> None"
          using b ce by (simp add: wm_def q Cons next_unit_def word_opt_def)
        then show ?thesis using None Cons by auto
      qed
    qed
  qed
qed

lemma scan_fixpoint:
  assumes "p \<noteq> []"
  shows "\<not> hasm f p prev s \<Longrightarrow> replace_scan f (wre p) (\<lambda>m c. r) prev s = s"
proof (induction s arbitrary: prev)
  case Nil
  then have "wm f p prev [] = None" by (cases "wm f p prev []") auto
  then show ?case using scan_word [OF assms, of f r prev "[]"] by simp
next
  case (Cons c cs)
  from Cons.prems have n1: "wm f p prev (c # cs) = None"
    by (cases "wm f p prev (c # cs)") auto
  from Cons.prems have n2: "\<not> hasm f p (Some c) cs" by simp
  show ?case using scan_word [OF assms, of f r prev "c # cs"] Cons.IH [OF n2] n1 by simp
qed

lemma apply_rule_scan:
  "apply_rule f rule t = replace_scan f (wre (jstr (fst rule))) (\<lambda>m c. jstr (snd rule)) None t"
  by (simp add: apply_rule_def replace_def word_re_wre fixed_def)

lemma apply_rule_no_match:
  assumes "wfp (jstr (fst rule))" "wfp (jstr (snd rule))" "wfp q" "compatible f q (jstr (snd rule))"
  shows "\<not> hasm f q None t \<or> q = jstr (fst rule) \<Longrightarrow> \<not> hasm f q None (apply_rule f rule t)"
  using no_new_match [OF assms(1,2) _ assms(4), of None t] assms(3)
  by (auto simp: apply_rule_scan wfp_def)

lemma apply_rules_no_match:
  assumes ok: "rules_ok f rules"
  shows "set rs \<subseteq> set rules \<Longrightarrow> rule \<in> set rules
         \<Longrightarrow> \<not> hasm f (jstr (fst rule)) None t \<or> rule \<in> set rs
         \<Longrightarrow> \<not> hasm f (jstr (fst rule)) None (apply_rules f rs t)"
proof (induction rs arbitrary: t)
  case Nil
  then show ?case by (simp add: apply_rules_def)
next
  case (Cons a rs)
  have a: "a \<in> set rules" using Cons.prems(1) by simp
  have wa: "wfp (jstr (fst a))" "wfp (jstr (snd a))" and wq: "wfp (jstr (fst rule))"
    and comp: "compatible f (jstr (fst rule)) (jstr (snd a))"
    using ok a Cons.prems(2) by (auto simp: rules_ok_def list_all_iff)
  have "\<not> hasm f (jstr (fst rule)) None (apply_rule f a t) \<or> rule \<in> set rs"
  proof (cases "rule \<in> set rs")
    case True
    then show ?thesis by simp
  next
    case False
    then have "\<not> hasm f (jstr (fst rule)) None t \<or> rule = a" using Cons.prems(3) by auto
    then have "\<not> hasm f (jstr (fst rule)) None t \<or> jstr (fst rule) = jstr (fst a)" by auto
    from apply_rule_no_match [OF wa wq comp this] show ?thesis by simp
  qed
  from Cons.IH [OF _ Cons.prems(2) this] Cons.prems(1)
  show ?case by (simp add: apply_rules_def)
qed

lemma apply_rules_idle:
  "\<forall>rule\<in>set rs. jstr (fst rule) \<noteq> [] \<and> \<not> hasm f (jstr (fst rule)) None t \<Longrightarrow> apply_rules f rs t = t"
proof (induction rs)
  case Nil
  then show ?case by (simp add: apply_rules_def)
next
  case (Cons a rs)
  then have "apply_rule f a t = t"
    by (simp add: apply_rule_scan scan_fixpoint)
  then show ?case using Cons by (simp add: apply_rules_def)
qed

lemma apply_rules_idempotent:
  assumes "rules_ok f rules"
  shows "apply_rules f rules (apply_rules f rules t) = apply_rules f rules t"
proof (rule apply_rules_idle, rule ballI)
  fix rule assume r: "rule \<in> set rules"
  then have "jstr (fst rule) \<noteq> []"
    using assms by (auto simp: rules_ok_def list_all_iff wfp_def)
  moreover have "\<not> hasm f (jstr (fst rule)) None (apply_rules f rules t)"
    using apply_rules_no_match [OF assms subset_refl r] r by simp
  ultimately show "jstr (fst rule) \<noteq> [] \<and> \<not> hasm f (jstr (fst rule)) None (apply_rules f rules t)"
    by simp
qed

lemma makeFormal_rules: "makeFormal text = apply_rules flags_gi formal_rules text"
  by (simp add: makeFormal_def apply_rules_def apply_rule_def formal_rules_def)

lemma makeCasual_rules: "makeCasual text = apply_rules flags_gi casual_rules text"
  by (simp add: makeCasual_def apply_rules_def apply_rule_def casual_rules_def)

lemma formal_rules_ok: "rules_ok flags_gi formal_rules"
  by (simp add: rules_ok_def formal_rules_def wfp_def compatible_def jstr_def is_word_def
      word_opt_def chr_eq_def canonicalize_def flags_gi_def)

lemma casual_rules_ok: "rules_ok flags_gi casual_rules"
  by (simp add: rules_ok_def casual_rules_def wfp_def compatible_def jstr_def is_word_def
      word_opt_def chr_eq_def canonicalize_def flags_gi_def)

text \<open>
  The check of the tables is not empty: it rejects a rule whose replacement contains its
  own pattern, such as "is" by "is not", which changes a text again and again.
\<close>

lemma compatible_rejects:
  "\<not> compatible flags_gi (jstr ''is'') (jstr ''is not'')
   \<and> apply_rule flags_gi (''is'', ''is not'') (jstr ''it is'') = jstr ''it is not''
   \<and> apply_rule flags_gi (''is'', ''is not'') (jstr ''it is not'') = jstr ''it is not not''"
  by (simp add: compatible_def apply_rule_def re_eval seqs_Cons)

text \<open>
  Claim C4. Making a text formal twice gives the same as making it formal once, and
  likewise for casual: after one application no pattern of the table matches any more,
  because no pattern can overlap a replacement of the table.
\<close>

theorem C4_idempotent:
  "makeFormal (makeFormal x) = makeFormal x \<and> makeCasual (makeCasual x) = makeCasual x"
  by (simp add: makeFormal_rules makeCasual_rules apply_rules_idempotent formal_rules_ok casual_rules_ok)

end
